theory Spec2Isabelle
  imports Main "HOL-Library.Sublist" "HOL-Library.Multiset"
begin

section \<open>Python strings and dictionaries\<close>

text \<open>
  A Python \<open>str\<close> is modelled as a \<open>string\<close>: one list element for each character of the
  text, so that offsets and slices count characters as the source does.

  Slicing never raises. An index below zero counts from the end, and every index is
  clamped to the length of the string.
\<close>

definition slice_index :: "int \<Rightarrow> nat \<Rightarrow> nat" where
  "slice_index i n = (if i < 0 then nat (i + int n) else min (nat i) n)"

definition py_prefix :: "string \<Rightarrow> int \<Rightarrow> string" where
  \<comment> \<open>\<open>s[:j]\<close>\<close>
  "py_prefix s j = take (slice_index j (length s)) s"

definition py_suffix :: "string \<Rightarrow> int \<Rightarrow> string" where
  \<comment> \<open>\<open>s[i:]\<close>\<close>
  "py_suffix s i = drop (slice_index i (length s)) s"

definition py_slice :: "string \<Rightarrow> int \<Rightarrow> int \<Rightarrow> string" where
  \<comment> \<open>\<open>s[i:j]\<close>\<close>
  "py_slice s i j = drop (slice_index i (length s)) (take (slice_index j (length s)) s)"

text \<open>
  \<open>str.replace(old, new)\<close> scans from the left and replaces every non-overlapping
  occurrence of \<open>old\<close>. With an empty \<open>old\<close> it puts \<open>new\<close> before every character and at
  the end.
\<close>

function replace_scan :: "string \<Rightarrow> string \<Rightarrow> string \<Rightarrow> string" where
  "replace_scan old new [] = []"
| "replace_scan old new (c # cs) =
     (if old \<noteq> [] \<and> prefix old (c # cs)
      then new @ replace_scan old new (drop (length old) (c # cs))
      else c # replace_scan old new cs)"
  by pat_completeness auto
termination
  by (relation "measure (\<lambda>(old, new, s). length s)") (auto simp: neq_Nil_conv)

definition str_replace :: "string \<Rightarrow> string \<Rightarrow> string \<Rightarrow> string" where
  \<comment> \<open>\<open>s.replace(old, new)\<close>\<close>
  "str_replace s old new =
     (if old = [] then new @ concat (map (\<lambda>c. c # new) s) else replace_scan old new s)"

text \<open>The decimal text of an integer, as an f-string writes it.\<close>

definition digit_char :: "nat \<Rightarrow> char" where
  "digit_char d = char_of (48 + d)"

fun digits_of :: "nat \<Rightarrow> string" where
  "digits_of n = (if n < 10 then [digit_char n] else digits_of (n div 10) @ [digit_char (n mod 10)])"

declare digits_of.simps [simp del]

definition str_int :: "int \<Rightarrow> string" where
  "str_int i = (if i < 0 then CHR ''-'' # digits_of (nat (- i)) else digits_of (nat i))"

text \<open>
  A \<open>dict\<close> keeps its keys in insertion order: an assignment to a key that is present
  replaces the value where it stands, an assignment to a new key appends.
\<close>

fun dict_set :: "'k \<Rightarrow> 'v \<Rightarrow> ('k \<times> 'v) list \<Rightarrow> ('k \<times> 'v) list" where
  "dict_set k v [] = [(k, v)]"
| "dict_set k v ((k', v') # d) =
     (if k' = k then (k, v) # d else (k', v') # dict_set k v d)"

definition dict_get :: "('k \<times> 'v) list \<Rightarrow> 'k \<Rightarrow> 'v option" where
  "dict_get d k = map_of d k"

section \<open>The PII handler\<close>

text \<open>
  The fields of \<open>PIIHandler\<close> that the tokenizer reads and writes. The two engines of the
  primary detector are outside the repository: the analyzer is a parameter
  \<open>analyze\<close> of the functions below, which returns the detected spans or raises.
\<close>

record handler =
  use_presidio :: bool
  token_mapping :: "(string \<times> string) list"
  token_counters :: "(string \<times> int) list"

record recognizer_result =
  r_start :: int
  r_end :: int
  entity_type :: string

datatype exn = Exception

text \<open>\<open>analyzer.analyze(text, language, entities)\<close>\<close>

type_synonym analyzer = "string \<Rightarrow> string \<Rightarrow> string list \<Rightarrow> exn + recognizer_result list"

text \<open>
  \<open>re.finditer(pattern, text)\<close> is a parameter as well: it yields the matches of the
  pattern in the text from left to right, each as its \<open>(start, end)\<close> offsets.
\<close>

type_synonym finditer = "string \<Rightarrow> string \<Rightarrow> (nat \<times> nat) list"

subsection \<open>\<open>_generate_token\<close>\<close>

text \<open>
  The counter of the category is created at zero when it is missing, raised by one, and
  written into the token; the mapping gets the token as a key. The second branch of the
  \<open>case\<close> cannot be taken: the key is present after the first step.
\<close>

definition generate_token :: "handler \<Rightarrow> string \<Rightarrow> string \<Rightarrow> string \<times> handler" where
  "generate_token h etype original_value =
     (let counters0 = (if dict_get (token_counters h) etype = None
                       then dict_set etype 0 (token_counters h)
                       else token_counters h);
          counter = (case dict_get counters0 etype of Some c \<Rightarrow> c + 1 | None \<Rightarrow> 1);
          counters1 = dict_set etype counter counters0;
          token = ''[PII_'' @ etype @ ''_'' @ str_int counter @ '']''
      in (token, h\<lparr>token_mapping := dict_set token original_value (token_mapping h),
                   token_counters := counters1\<rparr>))"

subsection \<open>\<open>_tokenize_with_regex\<close>\<close>

text \<open>
  The patterns and their labels, in the order of the source. A backslash of a pattern is
  written \<open>bs\<close>.
\<close>

abbreviation bs :: string where
  "bs \<equiv> [CHR 0x5C]"

definition patterns :: "(string \<times> string) list" where
  "patterns =
    [(bs @ ''b[A-Za-z0-9._%+-]+@[A-Za-z0-9.-]+'' @ bs @ ''.[A-Z|a-z]{2,}'' @ bs @ ''b'',
      ''EMAIL''),
     (bs @ ''b(?:'' @ bs @ ''+?1[-.'' @ bs @ ''s]?)?'' @ bs @ ''(?[0-9]{3}'' @ bs @ '')?[-.''
        @ bs @ ''s]?[0-9]{3}[-.'' @ bs @ ''s]?[0-9]{4}'' @ bs @ ''b'',
      ''PHONE''),
     (bs @ ''b'' @ bs @ ''d{3}-'' @ bs @ ''d{2}-'' @ bs @ ''d{4}'' @ bs @ ''b'',
      ''SSN''),
     (bs @ ''b(?:'' @ bs @ ''d{4}[-'' @ bs @ ''s]?){3}'' @ bs @ ''d{4}'' @ bs @ ''b'',
      ''CREDIT_CARD''),
     (bs @ ''b(?:[0-9]{1,3}'' @ bs @ ''.){3}[0-9]{1,3}'' @ bs @ ''b'',
      ''IP_ADDRESS''),
     (''https?://[^'' @ bs @ ''s]+'',
      ''URL''),
     (bs @ ''b[A-Z][a-z]+ [A-Z][a-z]+'' @ bs @ ''b'',
      ''PERSON'')]"

text \<open>
  The inner loop walks the matches of one pattern from the last to the first.
  \<open>match.group()\<close> is the slice of the string that was searched, \<open>subject\<close>.
\<close>

fun regex_matches_loop ::
  "string \<Rightarrow> string \<Rightarrow> handler \<Rightarrow> string \<Rightarrow> (nat \<times> nat) list \<Rightarrow> string \<times> handler" where
  "regex_matches_loop etype subject h tokenized [] = (tokenized, h)"
| "regex_matches_loop etype subject h tokenized ((s, e) # ms) =
     (let original_value = take (e - s) (drop s subject);
          (token, h') = generate_token h etype original_value;
          tokenized' = take s tokenized @ token @ drop e tokenized
      in regex_matches_loop etype subject h' tokenized' ms)"

fun regex_patterns_loop ::
  "finditer \<Rightarrow> handler \<Rightarrow> string \<Rightarrow> (string \<times> string) list \<Rightarrow> string \<times> handler" where
  "regex_patterns_loop fi h tokenized [] = (tokenized, h)"
| "regex_patterns_loop fi h tokenized ((pattern, etype) # ps) =
     (let matches = fi pattern tokenized;
          (tokenized', h') = regex_matches_loop etype tokenized h tokenized (rev matches)
      in regex_patterns_loop fi h' tokenized' ps)"

definition tokenize_with_regex :: "finditer \<Rightarrow> handler \<Rightarrow> string \<Rightarrow> string \<times> handler" where
  "tokenize_with_regex fi h text = regex_patterns_loop fi h text patterns"

subsection \<open>\<open>_tokenize_with_presidio\<close>\<close>

text \<open>
  \<open>results.sort(key=lambda x: x.start, reverse=True)\<close> is a stable sort: results with
  the same start keep their order.
\<close>

definition sort_results :: "recognizer_result list \<Rightarrow> recognizer_result list" where
  "sort_results results = sort_key (\<lambda>x. - r_start x) results"

text \<open>
  The loop slices the original \<open>text\<close> for the value and rewrites \<open>tokenized\<close>. When the
  analyzer raises, the \<open>except\<close> branch runs the regex path on the text; nothing else in
  the \<open>try\<close> block can raise.
\<close>

fun presidio_loop ::
  "string \<Rightarrow> handler \<Rightarrow> string \<Rightarrow> recognizer_result list \<Rightarrow> string \<times> handler" where
  "presidio_loop text h tokenized [] = (tokenized, h)"
| "presidio_loop text h tokenized (r # rs) =
     (let original_value = py_slice text (r_start r) (r_end r);
          (token, h') = generate_token h (entity_type r) original_value;
          tokenized' = py_prefix tokenized (r_start r) @ token @ py_suffix tokenized (r_end r)
      in presidio_loop text h' tokenized' rs)"

definition entities :: "string list" where
  "entities =
    [''PERSON'', ''EMAIL_ADDRESS'', ''PHONE_NUMBER'', ''CREDIT_CARD'',
     ''US_SSN'', ''US_DRIVER_LICENSE'', ''DATE_TIME'', ''LOCATION'',
     ''IP_ADDRESS'', ''URL'', ''US_BANK_NUMBER'', ''IBAN_CODE'']"

definition tokenize_with_presidio ::
  "analyzer \<Rightarrow> finditer \<Rightarrow> handler \<Rightarrow> string \<Rightarrow> string \<times> handler" where
  "tokenize_with_presidio analyze fi h text =
     (case analyze text ''en'' entities of
        Inl e \<Rightarrow> tokenize_with_regex fi h text
      | Inr results \<Rightarrow> presidio_loop text h text (sort_results results))"

subsection \<open>\<open>tokenize_text\<close> and \<open>detokenize_text\<close>\<close>

text \<open>
  \<open>tokenize_text\<close> returns the tokenized text with a copy of the mapping, and leaves the
  handler in its new state.
\<close>

definition tokenize_text ::
  "analyzer \<Rightarrow> finditer \<Rightarrow> handler \<Rightarrow> string \<Rightarrow> (string \<times> (string \<times> string) list) \<times> handler" where
  "tokenize_text analyze fi h text =
     (let h0 = h\<lparr>token_mapping := [], token_counters := []\<rparr>;
          (tokenized_text, h1) =
             (if use_presidio h0 then tokenize_with_presidio analyze fi h0 text
              else tokenize_with_regex fi h0 text)
      in ((tokenized_text, token_mapping h1), h1))"

text \<open>
  \<open>detokenize_text\<close> walks the items of the mapping in insertion order and replaces
  each token everywhere in the text it has so far.
\<close>

fun detokenize_text :: "string \<Rightarrow> (string \<times> string) list \<Rightarrow> string" where
  "detokenize_text detokenized [] = detokenized"
| "detokenize_text detokenized ((token, original_value) # m) =
     detokenize_text (str_replace detokenized token original_value) m"

section \<open>The response of the analysis\<close>

text \<open>
  \<open>ContractAnalyzer._detokenize_response\<close> works on the parsed JSON answer. \<open>json.dumps\<close>
  and \<open>json.loads\<close> are library functions and parameters here. \<open>loads\<close> returns the
  parsed value or raises: \<open>JSONDecodeError\<close> for a text that is not JSON, and two
  exceptions that are no \<open>JSONDecodeError\<close>, a \<open>ValueError\<close> for an integer of more
  digits than the interpreter converts, and \<open>RecursionError\<close> for arrays or objects nested
  deeper than the recursion limit. The \<open>except\<close> clause of the source names
  \<open>json.JSONDecodeError\<close> only, so the other two leave the function as raised: the result is
  the value returned, or the exception that escapes.
\<close>

datatype json =
  JNull | JBool bool | JNumber int | JString string
  | JArray "json list" | JObject "(string \<times> json) list"

datatype json_exn = JSONDecodeError | ValueError | RecursionError

definition detokenize_response ::
  "(json \<Rightarrow> string) \<Rightarrow> (string \<Rightarrow> json_exn + json) \<Rightarrow> json \<Rightarrow> (string \<times> string) list
     \<Rightarrow> json_exn + json" where
  "detokenize_response dumps loads response mapping =
     (let response_str = dumps response;
          detokenized_str = detokenize_text response_str mapping
      in case loads detokenized_str of
           Inr parsed \<Rightarrow> Inr parsed
         | Inl JSONDecodeError \<Rightarrow> Inr response
         | Inl e \<Rightarrow> Inl e)"

section \<open>The handler as an object\<close>

text \<open>
  A \<open>PIIHandler\<close> instance holds references to two dict objects, which its methods
  change in place, and \<open>tokenize_text\<close> returns \<open>self.token_mapping.copy()\<close>, a new
  object. To speak about which object a later call changes, dict objects live in a
  store and are named by their index; \<open>copy\<close> allocates the next index. A call reads the
  two dicts of the instance, runs \<open>tokenize_text\<close> on them, and writes them back to the
  same two indices: nothing else reads them in between.
\<close>

record heap =
  str_dicts :: "(string \<times> string) list list"
  int_dicts :: "(string \<times> int) list list"

record handler_obj =
  obj_use_presidio :: bool
  mapping_ref :: nat
  counters_ref :: nat

definition init :: "bool \<Rightarrow> heap \<Rightarrow> handler_obj \<times> heap" where
  "init presidio_ok hp =
     (\<lparr>obj_use_presidio = presidio_ok,
       mapping_ref = length (str_dicts hp),
       counters_ref = length (int_dicts hp)\<rparr>,
      hp\<lparr>str_dicts := str_dicts hp @ [[]], int_dicts := int_dicts hp @ [[]]\<rparr>)"

definition valid_obj :: "heap \<Rightarrow> handler_obj \<Rightarrow> bool" where
  "valid_obj hp obj =
     (mapping_ref obj < length (str_dicts hp) \<and> counters_ref obj < length (int_dicts hp))"

definition load_handler :: "heap \<Rightarrow> handler_obj \<Rightarrow> handler" where
  "load_handler hp obj =
     \<lparr>use_presidio = obj_use_presidio obj,
      token_mapping = str_dicts hp ! mapping_ref obj,
      token_counters = int_dicts hp ! counters_ref obj\<rparr>"

definition tokenize_text_obj ::
  "analyzer \<Rightarrow> finditer \<Rightarrow> handler_obj \<Rightarrow> heap \<Rightarrow> string \<Rightarrow> (string \<times> nat) \<times> heap" where
  "tokenize_text_obj analyze fi obj hp text =
     (let ((tokenized_text, m), h1) = tokenize_text analyze fi (load_handler hp obj) text;
          hp1 = hp\<lparr>str_dicts := (str_dicts hp)[mapping_ref obj := token_mapping h1],
                   int_dicts := (int_dicts hp)[counters_ref obj := token_counters h1]\<rparr>;
          copy_ref = length (str_dicts hp1)
      in ((tokenized_text, copy_ref), hp1\<lparr>str_dicts := str_dicts hp1 @ [m]\<rparr>))"

fun later_calls :: "analyzer \<Rightarrow> finditer \<Rightarrow> handler_obj \<Rightarrow> heap \<Rightarrow> string list \<Rightarrow> heap" where
  "later_calls analyze fi obj hp [] = hp"
| "later_calls analyze fi obj hp (text # texts) =
     later_calls analyze fi obj (snd (tokenize_text_obj analyze fi obj hp text)) texts"

section \<open>Notions of the specification\<close>

subsection \<open>Tokens\<close>

text \<open>
  The text of the token of a category and a counter value, and the grammar
  \<open>[PII_<CATEGORY>_<N>]\<close> of the specification: \<open>CATEGORY\<close> matches \<open>[A-Z0-9_]+\<close>, \<open>N\<close> is a
  decimal number without a leading zero. \<open>token_parts\<close> reads the two components back,
  splitting at the last underscore.
\<close>

definition mk_token :: "string \<Rightarrow> int \<Rightarrow> string" where
  "mk_token etype n = ''[PII_'' @ etype @ ''_'' @ str_int n @ '']''"

definition is_digit :: "char \<Rightarrow> bool" where
  "is_digit c = (48 \<le> (of_char c :: nat) \<and> (of_char c :: nat) \<le> 57)"

definition category_char :: "char \<Rightarrow> bool" where
  "category_char c =
     ((65 \<le> (of_char c :: nat) \<and> (of_char c :: nat) \<le> 90) \<or> is_digit c \<or> c = CHR ''_'')"

definition valid_category :: "string \<Rightarrow> bool" where
  "valid_category cat = (cat \<noteq> [] \<and> list_all category_char cat)"

definition token_parts :: "string \<Rightarrow> (string \<times> string) option" where
  "token_parts t =
     (if prefix ''[PII_'' t \<and> suffix '']'' t \<and> 6 \<le> length t
      then (let inner = butlast (drop 5 t);
                num = rev (takeWhile (\<lambda>c. c \<noteq> CHR ''_'') (rev inner))
            in if length num < length inner
               then Some (take (length inner - length num - 1) inner, num)
               else None)
      else None)"

definition is_token :: "string \<Rightarrow> bool" where
  "is_token t =
     (case token_parts t of
        None \<Rightarrow> False
      | Some (cat, num) \<Rightarrow>
          valid_category cat \<and> num \<noteq> [] \<and> list_all is_digit num \<and> hd num \<noteq> CHR ''0'')"

text \<open>
  What the proofs about replacement need of a token is its shape: a \<open>[\<close> in front, a
  \<open>]\<close> at the end, and no other bracket.
\<close>

definition token_shaped :: "string \<Rightarrow> bool" where
  "token_shaped t =
     (2 \<le> length t \<and> hd t = CHR ''['' \<and> last t = CHR '']''
      \<and> CHR ''['' \<notin> set (tl t) \<and> CHR '']'' \<notin> set (butlast t))"

definition bracket_free :: "string \<Rightarrow> bool" where
  "bracket_free s = (CHR ''['' \<notin> set s \<and> CHR '']'' \<notin> set s)"

definition part_ok :: "string \<Rightarrow> bool" where
  "part_ok p = (CHR ''['' \<notin> set p \<or> token_shaped p)"

subsection \<open>Spans\<close>

text \<open>
  A span lies inside the text when \<open>0 \<le> start < end \<le> len\<close>. Two spans are
  disjoint when one ends before the other starts.
\<close>

definition in_bounds :: "string \<Rightarrow> recognizer_result \<Rightarrow> bool" where
  "in_bounds text r = (0 \<le> r_start r \<and> r_start r < r_end r \<and> r_end r \<le> int (length text))"

definition disjoint_spans :: "recognizer_result \<Rightarrow> recognizer_result \<Rightarrow> bool" where
  "disjoint_spans r q = (r_end r \<le> r_start q \<or> r_end q \<le> r_start r)"

fun non_overlapping :: "recognizer_result list \<Rightarrow> bool" where
  "non_overlapping [] = True"
| "non_overlapping (r # rs) = (list_all (disjoint_spans r) rs \<and> non_overlapping rs)"

definition span_text :: "string \<Rightarrow> recognizer_result \<Rightarrow> string" where
  "span_text text r = py_slice text (r_start r) (r_end r)"

text \<open>
  A span starts inside the text when \<open>0 \<le> start < end\<close> and \<open>start < len\<close>. Its end may lie
  behind the text: the slice \<open>text[start:end]\<close> stops at the end of the text.
\<close>

definition starts_inside :: "string \<Rightarrow> recognizer_result \<Rightarrow> bool" where
  "starts_inside text r =
     (0 \<le> r_start r \<and> r_start r < r_end r \<and> r_start r < int (length text))"

text \<open>
  The simultaneous replacement: the replacements are listed from left to right, the text
  between them is copied from the original, and each slice gives way to its token.
  \<open>undetected\<close> lists the stretches that are copied.
\<close>

fun simultaneous :: "string \<Rightarrow> int \<Rightarrow> (recognizer_result \<times> string) list \<Rightarrow> string" where
  "simultaneous text pos [] = py_suffix text pos"
| "simultaneous text pos ((r, token) # xs) =
     py_slice text pos (r_start r) @ token @ simultaneous text (r_end r) xs"


section \<open>Auxiliary definitions\<close>

text \<open>
  \<open>session_inv\<close> is the invariant of the allocator during one call: every key of the
  mapping is the token of a category and of a number that the counter of the category
  has reached, the keys are distinct, and there are as many as the counters add up to.
\<close>

definition digits_value :: "string \<Rightarrow> nat" where
  "digits_value ds = foldl (\<lambda>acc c. 10 * acc + (of_char c - 48)) 0 ds"

definition next_counter :: "handler \<Rightarrow> string \<Rightarrow> int" where
  "next_counter h etype = (case dict_get (token_counters h) etype of None \<Rightarrow> 1 | Some c \<Rightarrow> c + 1)"

definition session_inv :: "handler \<Rightarrow> bool" where
  "session_inv h =
     ((\<forall>k \<in> fst ` set (token_mapping h).
         \<exists>c n m. k = mk_token c n \<and> dict_get (token_counters h) c = Some m \<and> n \<le> m)
      \<and> distinct (map fst (token_mapping h))
      \<and> int (length (token_mapping h)) = sum_list (map snd (token_counters h)))"

definition lookup_part :: "(string \<times> string) list \<Rightarrow> string \<Rightarrow> string" where
  "lookup_part m p = (case map_of m p of Some v \<Rightarrow> v | None \<Rightarrow> p)"

fun simul_upto :: "string \<Rightarrow> int \<Rightarrow> int \<Rightarrow> (recognizer_result \<times> string) list \<Rightarrow> string" where
  "simul_upto text pos b [] = py_slice text pos b"
| "simul_upto text pos b ((r, token) # xs) =
     py_slice text pos (r_start r) @ token @ simul_upto text (r_end r) b xs"

fun desc_chain :: "int \<Rightarrow> recognizer_result list \<Rightarrow> bool" where
  "desc_chain b [] = True"
| "desc_chain b (r # rs) =
     (0 \<le> r_start r \<and> r_start r < r_end r \<and> r_end r \<le> b \<and> desc_chain (r_start r) rs)"

text \<open>
  \<open>clamp_end\<close> moves the end of a span that lies behind the text to the end of the text.
\<close>

definition clamp_end :: "string \<Rightarrow> recognizer_result \<Rightarrow> recognizer_result" where
  "clamp_end text r = r\<lparr>r_end := min (r_end r) (int (length text))\<rparr>"

text \<open>
  The tokens that \<open>_generate_token\<close> returns during one call, in the order of the calls.
  Each function follows the loop of the same name and keeps the token of every
  iteration instead of the text. \<open>spans_found\<close> is the number of spans of the analyzer,
  and in the fallback path the number of matches that \<open>finditer\<close> returns for the seven
  patterns, each on the text as the patterns before it have left it.
\<close>

fun regex_matches_tokens :: "string \<Rightarrow> string \<Rightarrow> handler \<Rightarrow> (nat \<times> nat) list \<Rightarrow> string list" where
  "regex_matches_tokens etype subject h [] = []"
| "regex_matches_tokens etype subject h ((s, e) # ms) =
     (let original_value = take (e - s) (drop s subject);
          (token, h') = generate_token h etype original_value
      in token # regex_matches_tokens etype subject h' ms)"

fun regex_patterns_tokens ::
  "finditer \<Rightarrow> handler \<Rightarrow> string \<Rightarrow> (string \<times> string) list \<Rightarrow> string list" where
  "regex_patterns_tokens fi h tokenized [] = []"
| "regex_patterns_tokens fi h tokenized ((pattern, etype) # ps) =
     (let matches = fi pattern tokenized;
          (tokenized', h') = regex_matches_loop etype tokenized h tokenized (rev matches)
      in regex_matches_tokens etype tokenized h (rev matches)
         @ regex_patterns_tokens fi h' tokenized' ps)"

fun regex_patterns_matches ::
  "finditer \<Rightarrow> handler \<Rightarrow> string \<Rightarrow> (string \<times> string) list \<Rightarrow> nat" where
  "regex_patterns_matches fi h tokenized [] = 0"
| "regex_patterns_matches fi h tokenized ((pattern, etype) # ps) =
     (let matches = fi pattern tokenized;
          (tokenized', h') = regex_matches_loop etype tokenized h tokenized (rev matches)
      in length matches + regex_patterns_matches fi h' tokenized' ps)"

fun presidio_tokens :: "string \<Rightarrow> handler \<Rightarrow> recognizer_result list \<Rightarrow> string list" where
  "presidio_tokens text h [] = []"
| "presidio_tokens text h (r # rs) =
     (let original_value = py_slice text (r_start r) (r_end r);
          (token, h') = generate_token h (entity_type r) original_value
      in token # presidio_tokens text h' rs)"

definition allocated_tokens :: "analyzer \<Rightarrow> finditer \<Rightarrow> handler \<Rightarrow> string \<Rightarrow> string list" where
  "allocated_tokens analyze fi h text =
     (let h0 = h\<lparr>token_mapping := [], token_counters := []\<rparr>
      in if use_presidio h0
         then (case analyze text ''en'' entities of
                 Inl e \<Rightarrow> regex_patterns_tokens fi h0 text patterns
               | Inr results \<Rightarrow> presidio_tokens text h0 (sort_results results))
         else regex_patterns_tokens fi h0 text patterns)"

definition spans_found :: "analyzer \<Rightarrow> finditer \<Rightarrow> handler \<Rightarrow> string \<Rightarrow> nat" where
  "spans_found analyze fi h text =
     (let h0 = h\<lparr>token_mapping := [], token_counters := []\<rparr>
      in if use_presidio h0
         then (case analyze text ''en'' entities of
                 Inl e \<Rightarrow> regex_patterns_matches fi h0 text patterns
               | Inr results \<Rightarrow> length results)
         else regex_patterns_matches fi h0 text patterns)"

section \<open>Example inputs\<close>

text \<open>
  A handler in the primary mode, analyzers with fixed answers, and a \<open>finditer\<close> without
  matches. \<open>example_text\<close> and \<open>example_results\<close> are those of
  \<open>test_multiple_same_type_entities\<close>.
\<close>

definition example_handler :: handler where
  "example_handler = \<lparr>use_presidio = True, token_mapping = [], token_counters = []\<rparr>"

definition no_matches :: finditer where
  "no_matches pattern text = []"

definition example_text :: string where
  "example_text = ''Contact alice@company.com and bob@company.com for details''"

definition example_results :: "recognizer_result list" where
  "example_results =
     [\<lparr>r_start = 8, r_end = 25, entity_type = ''EMAIL_ADDRESS''\<rparr>,
      \<lparr>r_start = 30, r_end = 45, entity_type = ''EMAIL_ADDRESS''\<rparr>]"

definition example_analyze :: analyzer where
  "example_analyze text language ents = Inr example_results"

definition quiet_analyze :: analyzer where
  "quiet_analyze text language ents = Inr []"

definition failing_analyze :: analyzer where
  "failing_analyze text language ents = Inl Exception"

definition eager_analyze :: analyzer where
  "eager_analyze text language ents = Inr [\<lparr>r_start = 0, r_end = 0, entity_type = ''PERSON''\<rparr>]"

definition clash_text :: string where
  "clash_text = ''[PII_PERSON_1] is John Doe''"

definition clash_analyze :: analyzer where
  "clash_analyze text language ents = Inr [\<lparr>r_start = 18, r_end = 26, entity_type = ''PERSON''\<rparr>]"



definition nested_mapping :: "(string \<times> string) list" where
  "nested_mapping =
     [(''[PII_EMAIL_1]'', ''a@b.co''), (''[PII_URL_1]'', ''https://x.io/?u=[PII_EMAIL_1]'')]"

definition plain_mapping :: "(string \<times> string) list" where
  "plain_mapping = [(''[PII_EMAIL_1]'', ''a@b.co''), (''[PII_URL_1]'', ''https://x.io'')]"

definition plain_parts :: "string list" where
  "plain_parts = [''see '', ''[PII_URL_1]'', '' or '', ''[PII_EMAIL_1]'', '' '', ''[1]'']"

definition example_dumps :: "json \<Rightarrow> string" where
  \<open>example_dumps j =
     (case j of
        JObject [(k, JString s)] \<Rightarrow> ''{"'' @ k @ ''": "'' @ s @ ''"}''
      | _ \<Rightarrow> ''null'')\<close>

text \<open>
  A response with one token, and three mappings for it. With \<open>deep_mapping\<close> the text after
  the substitution is \<open>{"name": "x", "n": [[[...\<close> with a thousand brackets.
  \<open>example_loads\<close> stands for \<open>json.loads\<close> on the three texts: it gives the answers of
  the library there, the parsed object, \<open>JSONDecodeError\<close> and \<open>RecursionError\<close>.
\<close>

definition example_response :: json where
  "example_response = JObject [(''name'', JString ''[PII_PERSON_1]'')]"

definition quote_mapping :: "(string \<times> string) list" where
  \<open>quote_mapping = [(''[PII_PERSON_1]'', ''A"nn'')]\<close>

definition deep_mapping :: "(string \<times> string) list" where
  \<open>deep_mapping = [(''[PII_PERSON_1]'', ''x", "n": '' @ replicate 1000 CHR ''['')]\<close>

definition example_loads :: "string \<Rightarrow> json_exn + json" where
  \<open>example_loads s =
     (if s = ''{"name": "Ann"}'' then Inr (JObject [(''name'', JString ''Ann'')])
      else if s = ''{"name": "x", "n": '' @ replicate 1000 CHR ''['' @ ''"}'' then Inl RecursionError
      else Inl JSONDecodeError)\<close>

definition empty_heap :: heap where
  "empty_heap = \<lparr>str_dicts = [], int_dicts = []\<rparr>"

definition example_obj :: handler_obj where
  "example_obj = fst (init True empty_heap)"

definition example_heap :: heap where
  "example_heap = snd (init True empty_heap)"

definition first_call :: "(string \<times> nat) \<times> heap" where
  "first_call = tokenize_text_obj example_analyze no_matches example_obj example_heap example_text"

text \<open>
  The text and the spans of \<open>test_tokenize_and_detokenize_with_presidio\<close>: the text has
  61 characters and the last span ends at 62.
\<close>

definition test_text :: string where
  "test_text = ''Contact John Doe at john.doe@email.com or call (555) 123-4567''"

definition test_results :: "recognizer_result list" where
  "test_results =
     [\<lparr>r_start = 8, r_end = 16, entity_type = ''PERSON''\<rparr>,
      \<lparr>r_start = 20, r_end = 39, entity_type = ''EMAIL_ADDRESS''\<rparr>,
      \<lparr>r_start = 48, r_end = 62, entity_type = ''PHONE_NUMBER''\<rparr>]"

definition test_analyze :: analyzer where
  "test_analyze text language ents = Inr test_results"

text \<open>
  A text for the fallback path, with an address inside a link. \<open>nested_finditer\<close> gives the
  matches of \<open>re.finditer\<close> on the texts that the loop of the patterns searches: the
  first pattern finds the address at \<open>[19, 25)\<close>, the sixth finds the link at \<open>[4, 32)\<close> of
  the text in which the address is already a token, and no other pattern matches.
\<close>

definition nested_text :: string where
  "nested_text = ''see http://x.io/?u=a@b.co''"

definition nested_finditer :: finditer where
  "nested_finditer pattern text =
     (if pattern = fst (patterns ! 0) \<and> text = ''see http://x.io/?u=a@b.co'' then [(19, 25)]
      else if pattern = fst (patterns ! 5) \<and> text = ''see http://x.io/?u=[PII_EMAIL_1]''
      then [(4, 32)]
      else [])"

section \<open>Decimal numbers and the text of a token\<close>

lemma digit_char_is_digit: "d < 10 \<Longrightarrow> is_digit (digit_char d)"
  by (simp add: is_digit_def digit_char_def)

lemma digits_of_all_digits: "list_all is_digit (digits_of n)"
proof (induction n rule: digits_of.induct)
  case (1 n)
  show ?case
  proof (cases "n < 10")
    case True
    then show ?thesis by (subst digits_of.simps) (simp add: digit_char_is_digit)
  next
    case False
    with 1 show ?thesis by (subst digits_of.simps) (simp add: digit_char_is_digit)
  qed
qed

lemma digits_of_nonempty: "digits_of n \<noteq> []"
  by (subst digits_of.simps) simp

lemma digits_value_snoc: "digits_value (ds @ [c]) = 10 * digits_value ds + (of_char c - 48)"
  by (simp add: digits_value_def)

lemma digits_value_digits_of: "digits_value (digits_of n) = n"
proof (induction n rule: digits_of.induct)
  case (1 n)
  show ?case
  proof (cases "n < 10")
    case True
    then show ?thesis
      by (subst digits_of.simps) (simp add: digits_value_def digit_char_def)
  next
    case False
    with 1 have "digits_value (digits_of (n div 10)) = n div 10" by simp
    with False show ?thesis
      by (subst digits_of.simps) (simp add: digits_value_snoc digit_char_def)
  qed
qed

lemma digits_of_inj: "digits_of n = digits_of m \<Longrightarrow> n = m"
  by (metis digits_value_digits_of)

lemma is_digit_not_minus: "is_digit c \<Longrightarrow> c \<noteq> CHR ''-''"
  by (auto simp: is_digit_def)

lemma is_digit_not_underscore: "is_digit c \<Longrightarrow> c \<noteq> CHR ''_''"
  by (auto simp: is_digit_def)

lemma digits_of_hd_not_minus: "hd (digits_of n) \<noteq> CHR ''-''"
  using digits_of_all_digits [of n] digits_of_nonempty [of n]
  by (cases "digits_of n") (auto simp: is_digit_not_minus)

lemma str_int_inj: "str_int i = str_int j \<Longrightarrow> i = j"
proof -
  assume eq: "str_int i = str_int j"
  have neg: "\<And>a b. CHR ''-'' # digits_of a \<noteq> digits_of b"
    using digits_of_hd_not_minus by (metis list.sel(1))
  show ?thesis
  proof (cases "i < 0"; cases "j < 0")
    assume "i < 0" "j < 0"
    with eq have "nat (- i) = nat (- j)" by (auto simp: str_int_def dest: digits_of_inj)
    with \<open>i < 0\<close> \<open>j < 0\<close> show ?thesis by simp
  next
    assume "i < 0" "\<not> j < 0"
    with eq neg show ?thesis by (simp add: str_int_def)
  next
    assume "\<not> i < 0" "j < 0"
    with eq neg [of "nat (- j)" "nat i"] show ?thesis by (simp add: str_int_def)
  next
    assume "\<not> i < 0" "\<not> j < 0"
    with eq have "nat i = nat j" by (auto simp: str_int_def dest: digits_of_inj)
    with \<open>\<not> i < 0\<close> \<open>\<not> j < 0\<close> show ?thesis by simp
  qed
qed

lemma str_int_no_underscore: "CHR ''_'' \<notin> set (str_int i)"
  using digits_of_all_digits is_digit_not_underscore
  by (auto simp: str_int_def list_all_iff)

lemma split_at_first_sep:
  "us @ a # vs = us' @ a # vs' \<Longrightarrow> a \<notin> set us \<Longrightarrow> a \<notin> set us' \<Longrightarrow> us = us' \<and> vs = vs'"
proof (induction us arbitrary: us')
  case Nil
  then show ?case by (cases us') auto
next
  case (Cons u us)
  then show ?case by (cases us') auto
qed

lemma split_at_last_sep:
  assumes "xs @ a # ys = xs' @ a # ys'" and "a \<notin> set ys" and "a \<notin> set ys'"
  shows "xs = xs' \<and> ys = ys'"
proof -
  from assms(1) have "rev (xs @ a # ys) = rev (xs' @ a # ys')" by simp
  then have "rev ys @ a # rev xs = rev ys' @ a # rev xs'" by simp
  moreover have "a \<notin> set (rev ys)" "a \<notin> set (rev ys')" using assms by simp_all
  ultimately have "rev ys = rev ys' \<and> rev xs = rev xs'"
    by (rule split_at_first_sep)
  then show ?thesis by simp
qed

text \<open>
  A token determines its category and its number: the number is what follows the last
  underscore.
\<close>

lemma mk_token_inj: "mk_token c n = mk_token c' n' \<Longrightarrow> c = c' \<and> n = n'"
proof -
  assume "mk_token c n = mk_token c' n'"
  then have "c @ CHR ''_'' # str_int n = c' @ CHR ''_'' # str_int n'"
    by (simp add: mk_token_def)
  then have "c = c' \<and> str_int n = str_int n'"
    by (rule split_at_last_sep) (rule str_int_no_underscore)+
  then show ?thesis by (auto dest: str_int_inj)
qed

lemma token_parts_mk_token: "token_parts (mk_token c n) = Some (c, str_int n)"
proof -
  let ?D = "str_int n"
  let ?t = "mk_token c n"
  have t: "?t = ''[PII_'' @ (c @ CHR ''_'' # ?D) @ '']''" by (simp add: mk_token_def)
  have inner: "butlast (drop 5 ?t) = c @ CHR ''_'' # ?D"
    by (simp add: mk_token_def butlast_append)
  have D: "\<forall>x \<in> set (rev ?D). x \<noteq> CHR ''_''"
    using str_int_no_underscore [of n] by auto
  have "takeWhile (\<lambda>x. x \<noteq> CHR ''_'') (rev ?D @ CHR ''_'' # rev c)
          = rev ?D @ takeWhile (\<lambda>x. x \<noteq> CHR ''_'') (CHR ''_'' # rev c)"
    using D by (intro takeWhile_append2) auto
  then have "takeWhile (\<lambda>x. x \<noteq> CHR ''_'') (rev (c @ CHR ''_'' # ?D)) = rev ?D"
    by simp
  then have num: "rev (takeWhile (\<lambda>x. x \<noteq> CHR ''_'') (rev (butlast (drop 5 ?t)))) = ?D"
    by (simp add: inner)
  have cond: "prefix ''[PII_'' ?t \<and> suffix '']'' ?t \<and> 6 \<le> length ?t"
    by (simp add: mk_token_def suffix_def)
  show ?thesis
    unfolding token_parts_def Let_def num using cond by (simp add: inner)
qed

lemma not_digit_bracket: "\<not> is_digit CHR ''[''" "\<not> is_digit CHR '']''"
  by (simp_all add: is_digit_def)

lemma digits_of_bracket_free: "bracket_free (digits_of n)"
  using digits_of_all_digits [of n] not_digit_bracket
  by (auto simp: bracket_free_def list_all_iff)

lemma str_int_bracket_free: "bracket_free (str_int n)"
  using digits_of_bracket_free by (simp add: bracket_free_def str_int_def)

lemma token_shapedE:
  assumes "token_shaped t"
  obtains body where "t = CHR ''['' # body @ '']''"
    and "CHR ''['' \<notin> set body" and "CHR '']'' \<notin> set body"
proof -
  from assms have len: "2 \<le> length t" by (simp add: token_shaped_def)
  then obtain x xs where t: "t = x # xs" by (cases t) auto
  with len have xs: "xs \<noteq> []" by auto
  from assms t have x: "x = CHR ''[''" by (simp add: token_shaped_def)
  from xs obtain body y where b: "xs = body @ [y]" by (metis rev_exhaust)
  from assms t b have y: "y = CHR '']''" by (simp add: token_shaped_def)
  from assms t b have "CHR ''['' \<notin> set body" "CHR '']'' \<notin> set body"
    by (auto simp: token_shaped_def butlast_append)
  with t x b y that show thesis by simp
qed

lemma token_shapedI:
  "CHR ''['' \<notin> set body \<Longrightarrow> CHR '']'' \<notin> set body \<Longrightarrow> token_shaped (CHR ''['' # body @ '']'')"
  by (simp add: token_shaped_def butlast_append)

lemma token_shaped_has_bracket: "token_shaped k \<Longrightarrow> CHR ''['' \<in> set k"
  by (cases k) (auto simp: token_shaped_def)

lemma mk_token_shaped: "bracket_free c \<Longrightarrow> token_shaped (mk_token c n)"
proof -
  assume c: "bracket_free c"
  have "mk_token c n = CHR ''['' # (''PII_'' @ c @ ''_'' @ str_int n) @ '']''"
    by (simp add: mk_token_def)
  moreover have "CHR ''['' \<notin> set (''PII_'' @ c @ ''_'' @ str_int n)"
    "CHR '']'' \<notin> set (''PII_'' @ c @ ''_'' @ str_int n)"
    using c str_int_bracket_free [of n] by (auto simp: bracket_free_def)
  ultimately show ?thesis using token_shapedI [of "''PII_'' @ c @ ''_'' @ str_int n"] by simp
qed


lemma split_last_sep:
  assumes "length (takeWhile P (rev A)) < length A"
  shows "\<exists>c. A = take (length A - length (takeWhile P (rev A)) - 1) A
                 @ c # rev (takeWhile P (rev A)) \<and> \<not> P c"
proof -
  let ?N = "takeWhile P (rev A)"
  have "dropWhile P (rev A) \<noteq> []"
    using assms by (metis length_rev takeWhile_eq_all_conv dropWhile_eq_Nil_conv less_irrefl)
  then obtain c rest where d: "dropWhile P (rev A) = c # rest" by (cases "dropWhile P (rev A)") auto
  then have c: "\<not> P c" by (metis hd_dropWhile list.sel(1) list.distinct(1))
  have "rev A = ?N @ c # rest" using d by (metis takeWhile_dropWhile_id)
  then have "rev (rev A) = rev (?N @ c # rest)" by simp
  then have A: "A = rev rest @ c # rev ?N" by simp
  then have "length A = length rest + 1 + length ?N" by (metis length_append length_rev length_Cons add.commute add_Suc_right Suc_eq_plus1 add.assoc)
  then have "take (length A - length ?N - 1) A = rev rest"
    using A by (metis add_diff_cancel_right' append_eq_conv_conj length_rev)
  with A c show ?thesis by metis
qed

lemma category_char_not_bracket: "category_char c \<Longrightarrow> c \<noteq> CHR ''['' \<and> c \<noteq> CHR '']''"
  by (auto simp: category_char_def is_digit_def)

lemma is_token_shaped:
  assumes "is_token t"
  shows "token_shaped t"
proof -
  let ?A = "butlast (drop 5 t)"
  let ?N = "takeWhile (\<lambda>c. c \<noteq> CHR ''_'') (rev ?A)"
  let ?cat = "take (length ?A - length ?N - 1) ?A"
  from assms have cond: "prefix ''[PII_'' t" "suffix '']'' t" "6 \<le> length t"
    and lt: "length ?N < length ?A"
    by (auto simp: is_token_def token_parts_def Let_def split: if_splits option.splits)
  with assms have cat: "list_all category_char ?cat" and num: "list_all is_digit (rev ?N)"
    by (auto simp: is_token_def token_parts_def Let_def valid_category_def split: if_splits)
  from split_last_sep [OF lt] obtain c where A: "?A = ?cat @ c # rev ?N" and "\<not> c \<noteq> CHR ''_''"
    by blast
  then have c: "c = CHR ''_''" by simp
  have "CHR ''['' \<notin> set (?cat @ c # rev ?N) \<and> CHR '']'' \<notin> set (?cat @ c # rev ?N)"
    using cat num c not_digit_bracket
    by (auto simp: list_all_iff dest: category_char_not_bracket)
  with A have bf: "CHR ''['' \<notin> set ?A" "CHR '']'' \<notin> set ?A" by simp_all
  from cond(1) have t1: "t = ''[PII_'' @ drop 5 t" by (auto simp: prefix_def)
  from cond(2,3) t1 have "drop 5 t \<noteq> []" "last (drop 5 t) = CHR '']''"
    by (auto simp: suffix_def)
  then have "drop 5 t = ?A @ '']''" by (metis append_butlast_last_id)
  with t1 have "t = CHR ''['' # (''PII_'' @ ?A) @ '']''" by (metis append_Cons append_Nil append.assoc)
  moreover from bf have "CHR ''['' \<notin> set (''PII_'' @ ?A)" "CHR '']'' \<notin> set (''PII_'' @ ?A)"
    by simp_all
  ultimately show ?thesis using token_shapedI [of "''PII_'' @ ?A"] by simp
qed

section \<open>The token allocator\<close>

lemma dict_get_dict_set: "dict_get (dict_set k v d) k' = (if k' = k then Some v else dict_get d k')"
  by (induction d) (auto simp: dict_get_def)

lemma dict_set_fresh: "k \<notin> fst ` set d \<Longrightarrow> dict_set k v d = d @ [(k, v)]"
  by (induction d) auto

lemma dict_set_twice: "dict_set k v (dict_set k w d) = dict_set k v d"
  by (induction d) auto

lemma sum_dict_set:
  "sum_list (map snd (dict_set k v d)) =
     sum_list (map snd d) + v - (case dict_get d k of None \<Rightarrow> 0 | Some old \<Rightarrow> (old::int))"
  by (induction d) (auto simp: dict_get_def)

lemma generate_token_eq:
  "generate_token h etype v =
     (mk_token etype (next_counter h etype),
      h\<lparr>token_mapping := dict_set (mk_token etype (next_counter h etype)) v (token_mapping h),
        token_counters := dict_set etype (next_counter h etype) (token_counters h)\<rparr>)"
  by (cases "dict_get (token_counters h) etype")
     (simp_all add: generate_token_def next_counter_def mk_token_def dict_get_dict_set
        dict_set_twice Let_def)

text \<open>
  Claim C3, amended. The category component of a generated token is the label exactly as
  it was passed: nothing is changed to upper case, replaced or stripped. It matches
  \<open>[A-Z0-9_]+\<close> when the label does, as every label of the two detectors does.
\<close>

theorem category_is_label_verbatim:
  "map_option fst (token_parts (fst (generate_token h etype v))) = Some etype
   \<and> list_all valid_category (entities @ map snd patterns)"
proof -
  have "map_option fst (token_parts (fst (generate_token h etype v))) = Some etype"
    by (simp add: generate_token_eq token_parts_mk_token)
  moreover have "list_all valid_category (entities @ map snd patterns)"
    by (simp add: entities_def patterns_def valid_category_def category_char_def is_digit_def)
  ultimately show ?thesis by simp
qed

theorem category_not_normalized_counterexample:
  "fst (generate_token example_handler ''person'' ''John Doe'') = ''[PII_person_1]''
   \<and> token_parts ''[PII_person_1]'' = Some (''person'', ''1'')
   \<and> \<not> valid_category ''person''"
  by code_simp

subsection \<open>The invariant of a call\<close>

lemma session_inv_cleared: "session_inv (h\<lparr>token_mapping := [], token_counters := []\<rparr>)"
  by (simp add: session_inv_def)

lemma generate_token_fresh:
  assumes "session_inv h"
  shows "mk_token etype (next_counter h etype) \<notin> fst ` set (token_mapping h)"
proof
  assume "mk_token etype (next_counter h etype) \<in> fst ` set (token_mapping h)"
  with assms obtain c n m where
    k: "mk_token etype (next_counter h etype) = mk_token c n"
    and m: "dict_get (token_counters h) c = Some m" and le: "n \<le> m"
    unfolding session_inv_def by blast
  from k have "etype = c" "next_counter h etype = n" by (auto dest: mk_token_inj)
  with m le show False by (simp add: next_counter_def)
qed

lemma generate_token_mapping:
  assumes "session_inv h" and "generate_token h etype v = (t, h')"
  shows "t = mk_token etype (next_counter h etype)"
    and "token_mapping h' = token_mapping h @ [(t, v)]"
    and "t \<notin> fst ` set (token_mapping h)"
    and "use_presidio h' = use_presidio h"
  using assms generate_token_fresh [OF assms(1), of etype]
  by (auto simp: generate_token_eq dict_set_fresh)

lemma generate_token_inv:
  assumes "session_inv h" and "generate_token h etype v = (t, h')"
  shows "session_inv h'"
proof -
  let ?n = "next_counter h etype"
  have m': "token_mapping h' = token_mapping h @ [(mk_token etype ?n, v)]"
    using generate_token_mapping [OF assms] by simp
  have c': "token_counters h' = dict_set etype ?n (token_counters h)"
    using assms(2) by (auto simp: generate_token_eq)
  have "\<exists>c n m. k = mk_token c n \<and> dict_get (token_counters h') c = Some m \<and> n \<le> m"
    if "k \<in> fst ` set (token_mapping h')" for k
  proof (cases "k = mk_token etype ?n")
    case True
    then show ?thesis by (auto simp: c' dict_get_dict_set)
  next
    case False
    with that m' have "k \<in> fst ` set (token_mapping h)" by auto
    with assms(1) obtain c n m where
      *: "k = mk_token c n" "dict_get (token_counters h) c = Some m" "n \<le> m"
      unfolding session_inv_def by blast
    show ?thesis
    proof (cases "c = etype")
      case True
      with * have "n \<le> ?n" by (simp add: next_counter_def)
      with * True show ?thesis by (auto simp: c' dict_get_dict_set)
    next
      case False
      with * show ?thesis by (auto simp: c' dict_get_dict_set)
    qed
  qed
  moreover have "distinct (map fst (token_mapping h'))"
    using assms(1) generate_token_fresh [OF assms(1), of etype]
    by (simp add: m' session_inv_def)
  moreover have "int (length (token_mapping h')) = sum_list (map snd (token_counters h'))"
    using assms(1)
    by (auto simp: m' c' sum_dict_set session_inv_def next_counter_def split: option.splits)
  ultimately show ?thesis by (simp add: session_inv_def)
qed

lemma regex_matches_loop_inv:
  "session_inv h \<Longrightarrow> regex_matches_loop etype subject h tokenized ms = (x, h') \<Longrightarrow> session_inv h'"
proof (induction ms arbitrary: h tokenized)
  case Nil
  then show ?case by simp
next
  case (Cons m ms)
  obtain s e where m: "m = (s, e)" by (cases m)
  obtain t h1 where g: "generate_token h etype (take (e - s) (drop s subject)) = (t, h1)"
    by (cases "generate_token h etype (take (e - s) (drop s subject))")
  from Cons.prems(1) g have "session_inv h1" by (rule generate_token_inv)
  moreover from Cons.prems(2) m g
  have "regex_matches_loop etype subject h1 (take s tokenized @ t @ drop e tokenized) ms = (x, h')"
    by simp
  ultimately show ?case by (rule Cons.IH)
qed

lemma regex_patterns_loop_inv:
  "session_inv h \<Longrightarrow> regex_patterns_loop fi h tokenized ps = (x, h') \<Longrightarrow> session_inv h'"
proof (induction ps arbitrary: h tokenized)
  case Nil
  then show ?case by simp
next
  case (Cons p ps)
  obtain pattern etype where p: "p = (pattern, etype)" by (cases p)
  obtain y h1 where
    l: "regex_matches_loop etype tokenized h tokenized (rev (fi pattern tokenized)) = (y, h1)"
    by (cases "regex_matches_loop etype tokenized h tokenized (rev (fi pattern tokenized))")
  from Cons.prems(1) l have "session_inv h1" by (rule regex_matches_loop_inv)
  moreover from Cons.prems(2) p l have "regex_patterns_loop fi h1 y ps = (x, h')" by simp
  ultimately show ?case by (rule Cons.IH)
qed

lemma presidio_loop_inv:
  "session_inv h \<Longrightarrow> presidio_loop text h tokenized rs = (x, h') \<Longrightarrow>
     session_inv h' \<and> length (token_mapping h') = length (token_mapping h) + length rs"
proof (induction rs arbitrary: h tokenized)
  case Nil
  then show ?case by simp
next
  case (Cons r rs)
  let ?v = "py_slice text (r_start r) (r_end r)"
  obtain t h1 where g: "generate_token h (entity_type r) ?v = (t, h1)"
    by (cases "generate_token h (entity_type r) ?v")
  from Cons.prems(1) g have inv1: "session_inv h1" by (rule generate_token_inv)
  from Cons.prems(1) g have len1: "length (token_mapping h1) = length (token_mapping h) + 1"
    by (simp add: generate_token_mapping(2))
  from Cons.prems(2) g
  have "presidio_loop text h1 (py_prefix tokenized (r_start r) @ t @ py_suffix tokenized (r_end r)) rs
          = (x, h')"
    by simp
  with inv1 have "session_inv h' \<and> length (token_mapping h') = length (token_mapping h1) + length rs"
    by (rule Cons.IH)
  with len1 show ?case by simp
qed

lemma tokenize_with_regex_inv:
  "session_inv h \<Longrightarrow> tokenize_with_regex fi h text = (x, h') \<Longrightarrow> session_inv h'"
  unfolding tokenize_with_regex_def by (rule regex_patterns_loop_inv)

lemma tokenize_with_presidio_inv:
  "session_inv h \<Longrightarrow> tokenize_with_presidio analyze fi h text = (x, h') \<Longrightarrow> session_inv h'"
  unfolding tokenize_with_presidio_def
  by (auto split: sum.splits dest: tokenize_with_regex_inv presidio_loop_inv)

lemma tokenize_text_inv: "session_inv (snd (tokenize_text analyze fi h text))"
proof -
  let ?h0 = "h\<lparr>token_mapping := [], token_counters := []\<rparr>"
  have inv0: "session_inv ?h0" by (rule session_inv_cleared)
  show ?thesis
  proof (cases "use_presidio h")
    case True
    obtain x h1 where r: "tokenize_with_presidio analyze fi ?h0 text = (x, h1)"
      by (cases "tokenize_with_presidio analyze fi ?h0 text")
    from inv0 r have "session_inv h1" by (rule tokenize_with_presidio_inv)
    with True r show ?thesis by (simp add: tokenize_text_def)
  next
    case False
    obtain x h1 where r: "tokenize_with_regex fi ?h0 text = (x, h1)"
      by (cases "tokenize_with_regex fi ?h0 text")
    from inv0 r have "session_inv h1" by (rule tokenize_with_regex_inv)
    with False r show ?thesis by (simp add: tokenize_text_def)
  qed
qed

lemma tokenize_text_mapping:
  "snd (fst (tokenize_text analyze fi h text)) = token_mapping (snd (tokenize_text analyze fi h text))"
  by (simp add: tokenize_text_def Let_def split: prod.splits)

lemma tokenize_text_presidio:
  assumes "use_presidio h" and "analyze text ''en'' entities = Inr results"
  shows "tokenize_text analyze fi h text =
     (let (x, h1) = presidio_loop text (h\<lparr>token_mapping := [], token_counters := []\<rparr>) text
                      (sort_results results)
      in ((x, token_mapping h1), h1))"
  using assms by (simp add: tokenize_text_def tokenize_with_presidio_def)

subsection \<open>The tokens of a call\<close>

lemma regex_matches_loop_tokens:
  "session_inv h \<Longrightarrow> regex_matches_loop etype subject h tokenized ms = (x, h') \<Longrightarrow>
     map fst (token_mapping h') = map fst (token_mapping h) @ regex_matches_tokens etype subject h ms
     \<and> length (regex_matches_tokens etype subject h ms) = length ms"
proof (induction ms arbitrary: h tokenized)
  case Nil
  then show ?case by simp
next
  case (Cons m ms)
  obtain s e where m: "m = (s, e)" by (cases m)
  let ?v = "take (e - s) (drop s subject)"
  obtain t h1 where g: "generate_token h etype ?v = (t, h1)"
    by (cases "generate_token h etype ?v")
  from Cons.prems(1) g have inv1: "session_inv h1" by (rule generate_token_inv)
  from Cons.prems(1) g have m1: "token_mapping h1 = token_mapping h @ [(t, ?v)]"
    by (rule generate_token_mapping)
  from Cons.prems(2) m g
  have "regex_matches_loop etype subject h1 (take s tokenized @ t @ drop e tokenized) ms = (x, h')"
    by simp
  with inv1 have "map fst (token_mapping h') = map fst (token_mapping h1) @ regex_matches_tokens etype subject h1 ms
     \<and> length (regex_matches_tokens etype subject h1 ms) = length ms"
    by (rule Cons.IH)
  with m g m1 show ?case by simp
qed

lemma regex_patterns_loop_tokens:
  "session_inv h \<Longrightarrow> regex_patterns_loop fi h tokenized ps = (x, h') \<Longrightarrow>
     map fst (token_mapping h') = map fst (token_mapping h) @ regex_patterns_tokens fi h tokenized ps
     \<and> length (regex_patterns_tokens fi h tokenized ps) = regex_patterns_matches fi h tokenized ps"
proof (induction ps arbitrary: h tokenized)
  case Nil
  then show ?case by simp
next
  case (Cons p ps)
  obtain pattern etype where p: "p = (pattern, etype)" by (cases p)
  let ?ms = "rev (fi pattern tokenized)"
  obtain y h1 where l: "regex_matches_loop etype tokenized h tokenized ?ms = (y, h1)"
    by (cases "regex_matches_loop etype tokenized h tokenized ?ms")
  from Cons.prems(1) l have inv1: "session_inv h1" by (rule regex_matches_loop_inv)
  from Cons.prems(1) l
  have a: "map fst (token_mapping h1)
             = map fst (token_mapping h) @ regex_matches_tokens etype tokenized h ?ms
           \<and> length (regex_matches_tokens etype tokenized h ?ms) = length ?ms"
    by (rule regex_matches_loop_tokens)
  from Cons.prems(2) p l have "regex_patterns_loop fi h1 y ps = (x, h')" by simp
  with inv1 have "map fst (token_mapping h') = map fst (token_mapping h1) @ regex_patterns_tokens fi h1 y ps
     \<and> length (regex_patterns_tokens fi h1 y ps) = regex_patterns_matches fi h1 y ps"
    by (rule Cons.IH)
  with a p l show ?case by simp
qed

lemma presidio_loop_tokens:
  "session_inv h \<Longrightarrow> presidio_loop text h tokenized rs = (x, h') \<Longrightarrow>
     map fst (token_mapping h') = map fst (token_mapping h) @ presidio_tokens text h rs
     \<and> length (presidio_tokens text h rs) = length rs"
proof (induction rs arbitrary: h tokenized)
  case Nil
  then show ?case by simp
next
  case (Cons r rs)
  let ?v = "py_slice text (r_start r) (r_end r)"
  obtain t h1 where g: "generate_token h (entity_type r) ?v = (t, h1)"
    by (cases "generate_token h (entity_type r) ?v")
  from Cons.prems(1) g have inv1: "session_inv h1" by (rule generate_token_inv)
  from Cons.prems(1) g have m1: "token_mapping h1 = token_mapping h @ [(t, ?v)]"
    by (rule generate_token_mapping)
  from Cons.prems(2) g
  have "presidio_loop text h1 (py_prefix tokenized (r_start r) @ t @ py_suffix tokenized (r_end r)) rs
          = (x, h')"
    by simp
  with inv1 have "map fst (token_mapping h') = map fst (token_mapping h1) @ presidio_tokens text h1 rs
     \<and> length (presidio_tokens text h1 rs) = length rs"
    by (rule Cons.IH)
  with g m1 show ?case by simp
qed

lemma tokenize_text_tokens:
  "map fst (snd (fst (tokenize_text analyze fi h text))) = allocated_tokens analyze fi h text
   \<and> length (allocated_tokens analyze fi h text) = spans_found analyze fi h text"
proof -
  let ?h0 = "h\<lparr>token_mapping := [], token_counters := []\<rparr>"
  have inv0: "session_inv ?h0" by (rule session_inv_cleared)
  obtain x h1 where r: "tokenize_with_regex fi ?h0 text = (x, h1)"
    by (cases "tokenize_with_regex fi ?h0 text")
  then have "regex_patterns_loop fi ?h0 text patterns = (x, h1)"
    by (simp add: tokenize_with_regex_def)
  from regex_patterns_loop_tokens [OF inv0 this]
  have regex: "map fst (token_mapping h1) = regex_patterns_tokens fi ?h0 text patterns"
    "length (regex_patterns_tokens fi ?h0 text patterns)
       = regex_patterns_matches fi ?h0 text patterns"
    by simp_all
  show ?thesis
  proof (cases "use_presidio h")
    case False
    with regex r show ?thesis
      by (simp add: tokenize_text_def allocated_tokens_def spans_found_def)
  next
    case True
    show ?thesis
    proof (cases "analyze text ''en'' entities")
      case (Inl e)
      with True regex r show ?thesis
        by (simp add: tokenize_text_def tokenize_with_presidio_def allocated_tokens_def
            spans_found_def)
    next
      case (Inr results)
      obtain y h2 where l: "presidio_loop text ?h0 text (sort_results results) = (y, h2)"
        by (cases "presidio_loop text ?h0 text (sort_results results)")
      from presidio_loop_tokens [OF inv0 l] l True Inr show ?thesis
        by (simp add: tokenize_text_def tokenize_with_presidio_def allocated_tokens_def
            spans_found_def sort_results_def)
    qed
  qed
qed

text \<open>
  Claim C9. The tokens allocated in one call of \<open>tokenize_text\<close> are pairwise distinct.
  \<open>allocated_tokens\<close> lists the tokens that \<open>_generate_token\<close> returns during the call, one
  for every span of the analyzer or every match of a pattern, in the order of the
  calls: the list has no repetition, it is as long as the number of spans and matches
  found, and it is the list of the keys of the returned mapping, so that every
  allocation added a key. The number of entries is also the sum of the counters, each
  cleared at the start of the call and raised by one at every allocation.
\<close>

theorem tokens_pairwise_distinct:
  "distinct (allocated_tokens analyze fi h text)
   \<and> length (allocated_tokens analyze fi h text) = spans_found analyze fi h text
   \<and> map fst (snd (fst (tokenize_text analyze fi h text))) = allocated_tokens analyze fi h text
   \<and> int (length (snd (fst (tokenize_text analyze fi h text))))
       = sum_list (map snd (token_counters (snd (tokenize_text analyze fi h text))))
   \<and> (use_presidio h \<and> analyze text ''en'' entities = Inr results
        \<longrightarrow> length (snd (fst (tokenize_text analyze fi h text))) = length results)"
proof -
  have inv: "session_inv (snd (tokenize_text analyze fi h text))"
    by (rule tokenize_text_inv)
  have t: "map fst (snd (fst (tokenize_text analyze fi h text))) = allocated_tokens analyze fi h text"
    and l: "length (allocated_tokens analyze fi h text) = spans_found analyze fi h text"
    using tokenize_text_tokens [of analyze fi h "text"] by simp_all
  from inv have "distinct (map fst (snd (fst (tokenize_text analyze fi h text))))"
    by (simp add: session_inv_def tokenize_text_mapping)
  with t have d: "distinct (allocated_tokens analyze fi h text)" by simp
  have p: "length (snd (fst (tokenize_text analyze fi h text))) = length results"
    if "use_presidio h \<and> analyze text ''en'' entities = Inr results"
  proof -
    from that have "spans_found analyze fi h text = length results"
      by (simp add: spans_found_def)
    with l t show ?thesis by (metis length_map)
  qed
  from inv have "int (length (snd (fst (tokenize_text analyze fi h text))))
       = sum_list (map snd (token_counters (snd (tokenize_text analyze fi h text))))"
    by (simp add: session_inv_def tokenize_text_mapping)
  with d l t p show ?thesis by blast
qed

theorem tokens_pairwise_distinct_witness:
  "use_presidio example_handler
   \<and> example_analyze example_text ''en'' entities = Inr example_results
   \<and> length (snd (fst (tokenize_text example_analyze no_matches example_handler example_text)))
       = length example_results
   \<and> allocated_tokens example_analyze no_matches example_handler example_text
       = [''[PII_EMAIL_ADDRESS_1]'', ''[PII_EMAIL_ADDRESS_2]'']
   \<and> allocated_tokens failing_analyze nested_finditer example_handler nested_text
       = [''[PII_EMAIL_1]'', ''[PII_URL_1]'']
   \<and> spans_found failing_analyze nested_finditer example_handler nested_text = 2
   \<and> distinct (allocated_tokens failing_analyze nested_finditer example_handler nested_text)"
proof -
  have h1: "use_presidio example_handler" by (simp add: example_handler_def)
  have h2: "example_analyze example_text ''en'' entities = Inr example_results"
    by (simp add: example_analyze_def)
  have a1: "allocated_tokens example_analyze no_matches example_handler example_text
       = [''[PII_EMAIL_ADDRESS_1]'', ''[PII_EMAIL_ADDRESS_2]'']"
    by code_simp
  have a2: "allocated_tokens failing_analyze nested_finditer example_handler nested_text
       = [''[PII_EMAIL_1]'', ''[PII_URL_1]'']"
    by code_simp
  have a3: "spans_found failing_analyze nested_finditer example_handler nested_text = 2"
    by code_simp
  from tokens_pairwise_distinct
         [of example_analyze no_matches example_handler example_text example_results] h1 h2
  have "length (snd (fst (tokenize_text example_analyze no_matches example_handler example_text)))
       = length example_results"
    by blast
  moreover from tokens_pairwise_distinct
         [of failing_analyze nested_finditer example_handler nested_text example_results]
  have "distinct (allocated_tokens failing_analyze nested_finditer example_handler nested_text)"
    by blast
  ultimately show ?thesis using h1 h2 a1 a2 a3 by blast
qed

section \<open>The rewrite from the highest offset to the lowest\<close>

lemma simul_upto_length: "simul_upto text pos (int (length text)) xs = simultaneous text pos xs"
  by (induction xs arbitrary: pos) (auto simp: py_slice_def py_suffix_def slice_index_def)

lemma simul_upto_snoc:
  "simul_upto text pos b (xs @ [(r, token)]) =
     simul_upto text pos (r_start r) xs @ token @ py_slice text (r_end r) b"
  by (induction xs arbitrary: pos) auto

lemma py_prefix_take:
  assumes "0 \<le> s" and "s \<le> b" and "b \<le> int (length text)"
  shows "py_prefix (take (nat b) text @ suf) s = take (nat s) text"
proof -
  from assms have "nat s \<le> nat b" "nat b \<le> length text" by auto
  then have "take (nat s) (take (nat b) text @ suf) = take (nat s) text"
    by (simp add: min_absorb2)
  moreover have "slice_index s (length (take (nat b) text @ suf)) = nat s"
    using assms \<open>nat s \<le> nat b\<close> \<open>nat b \<le> length text\<close> by (simp add: slice_index_def)
  ultimately show ?thesis by (simp add: py_prefix_def)
qed

lemma py_suffix_take:
  assumes "0 \<le> e" and "e \<le> b" and "b \<le> int (length text)"
  shows "py_suffix (take (nat b) text @ suf) e = py_slice text e b @ suf"
proof -
  from assms have le: "nat e \<le> nat b" "nat b \<le> length text" by auto
  then have "drop (nat e) (take (nat b) text @ suf) = drop (nat e) (take (nat b) text) @ suf"
    by simp
  moreover have "slice_index e (length (take (nat b) text @ suf)) = nat e"
    using assms le by (simp add: slice_index_def)
  moreover have "slice_index e (length text) = nat e" "slice_index b (length text) = nat b"
    using assms le by (simp_all add: slice_index_def)
  ultimately show ?thesis by (simp add: py_suffix_def py_slice_def)
qed

lemma py_slice_zero: "0 \<le> b \<Longrightarrow> b \<le> int (length text) \<Longrightarrow> py_slice text 0 b = take (nat b) text"
  by (simp add: py_slice_def slice_index_def)

lemma desc_chain_insort:
  assumes "desc_chain b ds" and "0 \<le> r_start r" and "r_start r < r_end r" and "r_end r \<le> b"
    and "list_all (disjoint_spans r) ds"
  shows "desc_chain b (insort_key (\<lambda>x. - r_start x) r ds)"
  using assms
proof (induction ds arbitrary: b)
  case Nil
  then show ?case by simp
next
  case (Cons y ys)
  from Cons.prems have y: "0 \<le> r_start y" "r_start y < r_end y" "r_end y \<le> b"
    and ys: "desc_chain (r_start y) ys" and d: "disjoint_spans r y"
    and ds: "list_all (disjoint_spans r) ys"
    by simp_all
  show ?case
  proof (cases "r_start y \<le> r_start r")
    case True
    with d y Cons.prems(3) have "r_end y \<le> r_start r" by (auto simp: disjoint_spans_def)
    with True y ys Cons.prems show ?thesis by simp
  next
    case False
    with d y Cons.prems(3) have "r_end r \<le> r_start y" by (auto simp: disjoint_spans_def)
    with ys Cons.prems(2,3) ds have "desc_chain (r_start y) (insort_key (\<lambda>x. - r_start x) r ys)"
      by (intro Cons.IH)
    with False y show ?thesis by simp
  qed
qed

lemma desc_chain_sort_results:
  assumes "list_all (in_bounds text) rs" and "non_overlapping rs"
  shows "desc_chain (int (length text)) (sort_results rs)"
  using assms
proof (induction rs)
  case Nil
  then show ?case by (simp add: sort_results_def)
next
  case (Cons r rs)
  then have IH: "desc_chain (int (length text)) (sort_results rs)" by simp
  from Cons.prems have "list_all (disjoint_spans r) (sort_results rs)"
    by (simp add: list_all_iff sort_results_def)
  with IH Cons.prems(1)
  have "desc_chain (int (length text)) (insort_key (\<lambda>x. - r_start x) r (sort_results rs))"
    by (intro desc_chain_insort) (simp_all add: in_bounds_def)
  then show ?case by (simp add: sort_results_def)
qed

text \<open>
  The invariant of the loop: the text so far is a prefix of the original, up to the start
  of the span rewritten last, followed by what the loop has produced.
\<close>

lemma presidio_loop_chain:
  assumes "session_inv h" and "desc_chain b rs" and "b \<le> int (length text)" and "0 \<le> b"
    and "presidio_loop text h (take (nat b) text @ suf) rs = (x, h')"
  shows "\<exists>tks. length tks = length rs
           \<and> token_mapping h' = token_mapping h @ zip tks (map (span_text text) rs)
           \<and> list_all2 (\<lambda>tk r. \<exists>n. tk = mk_token (entity_type r) n) tks rs
           \<and> x = simul_upto text 0 b (rev (zip rs tks)) @ suf
           \<and> session_inv h'"
  using assms
proof (induction rs arbitrary: h b suf)
  case Nil
  then show ?case
    by (auto simp: py_slice_def slice_index_def)
next
  case (Cons r rs)
  let ?s = "r_start r" and ?e = "r_end r"
  from Cons.prems(2) have r: "0 \<le> ?s" "?s < ?e" "?e \<le> b" and chain: "desc_chain ?s rs"
    by simp_all
  obtain t h1 where g: "generate_token h (entity_type r) (span_text text r) = (t, h1)"
    by (cases "generate_token h (entity_type r) (span_text text r)")
  from Cons.prems(1) g have inv1: "session_inv h1" by (rule generate_token_inv)
  from Cons.prems(1) g have t: "t = mk_token (entity_type r) (next_counter h (entity_type r))"
    and m1: "token_mapping h1 = token_mapping h @ [(t, span_text text r)]"
    by (rule generate_token_mapping)+
  let ?suf = "t @ py_slice text ?e b @ suf"
  have pre: "py_prefix (take (nat b) text @ suf) ?s = take (nat ?s) text"
    using r Cons.prems(3) by (intro py_prefix_take) auto
  have post: "py_suffix (take (nat b) text @ suf) ?e = py_slice text ?e b @ suf"
    using r Cons.prems(3) by (intro py_suffix_take) auto
  from Cons.prems(5) g pre post
  have loop: "presidio_loop text h1 (take (nat ?s) text @ ?suf) rs = (x, h')"
    by (simp add: span_text_def)
  from r Cons.prems(3) have sb: "?s \<le> int (length text)" by simp
  from Cons.IH [OF inv1 chain sb r(1) loop] obtain tks where
    len: "length tks = length rs"
    and m: "token_mapping h' = token_mapping h1 @ zip tks (map (span_text text) rs)"
    and shape: "list_all2 (\<lambda>tk r. \<exists>n. tk = mk_token (entity_type r) n) tks rs"
    and x: "x = simul_upto text 0 ?s (rev (zip rs tks)) @ ?suf"
    and inv: "session_inv h'"
    by blast
  have "length (t # tks) = length (r # rs)" using len by simp
  moreover have "token_mapping h' = token_mapping h @ zip (t # tks) (map (span_text text) (r # rs))"
    using m m1 by simp
  moreover have "list_all2 (\<lambda>tk r. \<exists>n. tk = mk_token (entity_type r) n) (t # tks) (r # rs)"
    using shape t by auto
  moreover have "x = simul_upto text 0 b (rev (zip (r # rs) (t # tks))) @ suf"
    using x by (simp add: simul_upto_snoc)
  ultimately show ?case using inv by blast
qed

lemma tokenize_text_structure:
  assumes "use_presidio h" and "analyze text ''en'' entities = Inr results"
    and "list_all (in_bounds text) results" and "non_overlapping results"
  obtains tks where "length tks = length results"
    and "snd (fst (tokenize_text analyze fi h text))
           = zip tks (map (span_text text) (sort_results results))"
    and "list_all2 (\<lambda>tk r. \<exists>n. tk = mk_token (entity_type r) n) tks (sort_results results)"
    and "fst (fst (tokenize_text analyze fi h text))
           = simul_upto text 0 (int (length text)) (rev (zip (sort_results results) tks))"
    and "distinct tks"
proof -
  let ?h0 = "h\<lparr>token_mapping := [], token_counters := []\<rparr>"
  let ?ds = "sort_results results"
  obtain x h1 where loop: "presidio_loop text ?h0 text ?ds = (x, h1)"
    by (cases "presidio_loop text ?h0 text ?ds")
  have res: "tokenize_text analyze fi h text = ((x, token_mapping h1), h1)"
    using loop assms(1,2) by (simp add: tokenize_text_presidio)
  have chain: "desc_chain (int (length text)) ?ds"
    using assms(3,4) by (rule desc_chain_sort_results)
  have loop': "presidio_loop text ?h0 (take (nat (int (length text))) text @ []) ?ds = (x, h1)"
    using loop by simp
  from presidio_loop_chain [OF session_inv_cleared chain _ _ loop']
  obtain tks where len: "length tks = length ?ds"
    and m: "token_mapping h1 = token_mapping ?h0 @ zip tks (map (span_text text) ?ds)"
    and shape: "list_all2 (\<lambda>tk r. \<exists>n. tk = mk_token (entity_type r) n) tks ?ds"
    and x: "x = simul_upto text 0 (int (length text)) (rev (zip ?ds tks)) @ []"
    and inv: "session_inv h1"
    by auto
  from inv m len have "distinct tks" by (simp add: session_inv_def)
  moreover from len have "length tks = length results" by (simp add: sort_results_def)
  ultimately show thesis using that res m shape x by simp
qed

text \<open>
  Claim C4. In the primary path the results are sorted by start offset, highest first,
  and rewritten in that order: the sorted list holds the results of the analyzer, each
  as often as the analyzer gave it. When the spans lie inside the text and no two of them
  overlap, the text this produces is the simultaneous replacement of every span's slice
  of the original text by the token allocated for it: the \<open>i\<close>-th entry of the mapping
  belongs to the \<open>i\<close>-th span in descending order, and no offset is invalidated.
\<close>

theorem descending_rewrite_simultaneous:
  assumes "use_presidio h" and "analyze text ''en'' entities = Inr results"
    and "list_all (in_bounds text) results" and "non_overlapping results"
  shows "mset (sort_results results) = mset results
     \<and> sorted_wrt (\<lambda>r q. r_start q \<le> r_start r) (sort_results results)
     \<and> map snd (snd (fst (tokenize_text analyze fi h text)))
         = map (span_text text) (sort_results results)
     \<and> fst (fst (tokenize_text analyze fi h text))
         = simultaneous text 0
             (rev (zip (sort_results results) (map fst (snd (fst (tokenize_text analyze fi h text))))))"
proof -
  let ?ds = "sort_results results"
  from assms obtain tks where len: "length tks = length results"
    and m: "snd (fst (tokenize_text analyze fi h text)) = zip tks (map (span_text text) ?ds)"
    and x: "fst (fst (tokenize_text analyze fi h text))
              = simul_upto text 0 (int (length text)) (rev (zip ?ds tks))"
    by (rule tokenize_text_structure)
  have lds: "length ?ds = length results" by (simp add: sort_results_def)
  have "sorted (map (\<lambda>r. - r_start r) ?ds)" by (simp add: sort_results_def)
  then have "sorted_wrt (\<lambda>r q. r_start q \<le> r_start r) ?ds" by (simp add: sorted_map)
  moreover have "mset ?ds = mset results" by (simp add: sort_results_def)
  moreover from m len lds have "map fst (snd (fst (tokenize_text analyze fi h text))) = tks"
    and "map snd (snd (fst (tokenize_text analyze fi h text))) = map (span_text text) ?ds"
    by simp_all
  ultimately show ?thesis using x by (simp add: simul_upto_length)
qed

theorem descending_rewrite_simultaneous_witness:
  "use_presidio example_handler
   \<and> example_analyze example_text ''en'' entities = Inr example_results
   \<and> list_all (in_bounds example_text) example_results
   \<and> non_overlapping example_results
   \<and> mset (sort_results example_results) = mset example_results
   \<and> map snd (snd (fst (tokenize_text example_analyze no_matches example_handler example_text)))
       = map (span_text example_text) (sort_results example_results)
   \<and> fst (fst (tokenize_text example_analyze no_matches example_handler example_text))
       = simultaneous example_text 0
           (rev (zip (sort_results example_results)
              (map fst (snd (fst (tokenize_text example_analyze no_matches example_handler example_text))))))"
proof -
  have h1: "use_presidio example_handler" by (simp add: example_handler_def)
  have h2: "example_analyze example_text ''en'' entities = Inr example_results"
    by (simp add: example_analyze_def)
  have h3: "list_all (in_bounds example_text) example_results"
    by (simp add: in_bounds_def example_text_def example_results_def)
  have h4: "non_overlapping example_results"
    by (simp add: disjoint_spans_def example_results_def)
  show ?thesis
    using descending_rewrite_simultaneous
            [of example_handler example_analyze example_text example_results no_matches]
          h1 h2 h3 h4
    by (simp add: list_all_iff)
qed

section \<open>Replacement in a text of stretches and tokens\<close>

lemma prefix_until_sep:
  assumes "prefix (xs @ [a]) (ys @ a # rest)" and "a \<notin> set xs" and "a \<notin> set ys"
  shows "xs = ys"
proof -
  from assms(1) obtain z where "ys @ a # rest = (xs @ [a]) @ z" by (auto simp: prefix_def)
  then have "ys @ a # rest = xs @ a # z" by simp
  then have "ys = xs \<and> rest = z" using assms(3,2) by (rule split_at_first_sep)
  then show ?thesis by simp
qed

lemma token_prefix_eq:
  assumes "token_shaped k" and "token_shaped p" and "prefix k (p @ rest)"
  shows "k = p"
proof -
  from assms(1) obtain bk where k: "k = CHR ''['' # bk @ '']''" and bk: "CHR '']'' \<notin> set bk"
    by (rule token_shapedE)
  from assms(2) obtain bp where p: "p = CHR ''['' # bp @ '']''" and bp: "CHR '']'' \<notin> set bp"
    by (rule token_shapedE)
  from assms(3) k p have "prefix (bk @ '']'') (bp @ CHR '']'' # rest)" by simp
  then have "bk = bp" using bk bp by (rule prefix_until_sep)
  with k p show ?thesis by simp
qed

lemma replace_scan_plain:
  assumes "hd k = CHR ''[''" and "CHR ''['' \<notin> set c"
  shows "replace_scan k v (c @ rest) = c @ replace_scan k v rest"
  using assms(2)
proof (induction c)
  case Nil
  then show ?case by simp
next
  case (Cons x xs)
  then have "x \<noteq> CHR ''[''" by auto
  with assms(1) have "\<not> (k \<noteq> [] \<and> prefix k (x # xs @ rest))"
    by (cases k) auto
  then have "replace_scan k v (x # xs @ rest) = x # replace_scan k v (xs @ rest)"
    by auto
  with Cons show ?case by simp
qed

lemma replace_scan_key:
  assumes "k \<noteq> []"
  shows "replace_scan k v (k @ rest) = v @ replace_scan k v rest"
proof -
  from assms obtain x xs where k: "k = x # xs" by (cases k) auto
  have "replace_scan k v (x # (xs @ rest)) = v @ replace_scan k v (drop (length k) (x # (xs @ rest)))"
    using k by (subst replace_scan.simps) simp
  then show ?thesis using k by simp
qed

lemma replace_scan_other_token:
  assumes "token_shaped k" and "token_shaped p" and "p \<noteq> k"
  shows "replace_scan k v (p @ rest) = p @ replace_scan k v rest"
proof -
  from assms(2) obtain bp where p: "p = CHR ''['' # bp @ '']''" and bp: "CHR ''['' \<notin> set bp"
    by (rule token_shapedE)
  from assms have np: "\<not> prefix k (p @ rest)" by (auto dest: token_prefix_eq)
  from assms(1) have hd: "hd k = CHR ''[''" by (simp add: token_shaped_def)
  from bp have "CHR ''['' \<notin> set (bp @ '']'')" by simp
  with hd have "replace_scan k v ((bp @ '']'') @ rest) = (bp @ '']'') @ replace_scan k v rest"
    by (rule replace_scan_plain)
  moreover have "replace_scan k v (p @ rest) = CHR ''['' # replace_scan k v ((bp @ '']'') @ rest)"
    using np p by simp
  ultimately show ?thesis using p by simp
qed

lemma replace_scan_parts:
  assumes "token_shaped k" and "list_all part_ok parts"
  shows "replace_scan k v (concat parts) = concat (map (\<lambda>p. if p = k then v else p) parts)"
  using assms(2)
proof (induction parts)
  case Nil
  then show ?case by simp
next
  case (Cons p parts)
  from assms(1) have hd: "hd k = CHR ''[''" and ne: "k \<noteq> []"
    by (auto simp: token_shaped_def)
  from Cons have IH: "replace_scan k v (concat parts) = concat (map (\<lambda>p. if p = k then v else p) parts)"
    by simp
  show ?case
  proof (cases "p = k")
    case True
    with ne IH show ?thesis by (simp add: replace_scan_key)
  next
    case False
    from Cons.prems have "part_ok p" by simp
    then have "replace_scan k v (p @ concat parts) = p @ replace_scan k v (concat parts)"
      unfolding part_ok_def
    proof
      assume "CHR ''['' \<notin> set p"
      with hd show ?thesis by (rule replace_scan_plain)
    next
      assume "token_shaped p"
      with assms(1) show ?thesis using False by (rule replace_scan_other_token)
    qed
    with False IH show ?thesis by simp
  qed
qed

lemma detokenize_parts:
  assumes "list_all part_ok parts"
    and "\<forall>(k, v) \<in> set m. token_shaped k \<and> CHR ''['' \<notin> set v"
  shows "detokenize_text (concat parts) m = concat (map (lookup_part m) parts)"
  using assms
proof (induction m arbitrary: parts)
  case Nil
  then show ?case by (simp add: lookup_part_def)
next
  case (Cons kv m)
  obtain k v where kv: "kv = (k, v)" by (cases kv)
  from Cons.prems kv have k: "token_shaped k" and v: "CHR ''['' \<notin> set v" by auto
  let ?parts = "map (\<lambda>p. if p = k then v else p) parts"
  from k have "k \<noteq> []" by (auto simp: token_shaped_def)
  then have "str_replace (concat parts) k v = concat ?parts"
    using replace_scan_parts [OF k Cons.prems(1)] by (simp add: str_replace_def)
  moreover have "list_all part_ok ?parts"
    using Cons.prems(1) v by (auto simp: list_all_iff part_ok_def)
  moreover from Cons.prems(2) have "\<forall>(k, v) \<in> set m. token_shaped k \<and> CHR ''['' \<notin> set v"
    by simp
  ultimately have "detokenize_text (concat parts) (kv # m) = concat (map (lookup_part m) ?parts)"
    using Cons.IH kv by simp
  moreover have "lookup_part m (if p = k then v else p) = lookup_part (kv # m) p" for p
  proof (cases "p = k")
    case True
    have "map_of m v = None"
    proof (rule ccontr)
      assume "map_of m v \<noteq> None"
      then obtain w where "(v, w) \<in> set m" by (auto dest: map_of_SomeD)
      with Cons.prems(2) have "token_shaped v" by auto
      with v show False by (auto dest: token_shaped_has_bracket)
    qed
    with True kv show ?thesis by (simp add: lookup_part_def)
  next
    case False
    with kv show ?thesis by (simp add: lookup_part_def)
  qed
  ultimately show ?case by (simp add: comp_def)
qed

lemma take_drop_take: "i \<le> j \<Longrightarrow> take i xs @ drop i (take j xs) = take j xs"
proof -
  assume "i \<le> j"
  then have "take i (take j xs) = take i xs" by (simp add: min_absorb1)
  then have "take i xs @ drop i (take j xs) = take i (take j xs) @ drop i (take j xs)" by simp
  also have "\<dots> = take j xs" by (rule append_take_drop_id)
  finally show ?thesis .
qed

section \<open>Where a detected value can remain\<close>






section \<open>The order of the replacements and partial mappings\<close>

text \<open>
  Claim C5, amended. The order of the entries does not matter when the text is made of
  stretches without \<open>[\<close> and of tokens, the keys of the mapping are tokens, and no value
  of the mapping holds a \<open>[\<close>: every permutation of the entries then gives the same
  output.
\<close>

theorem detokenize_order_independent:
  assumes "list_all part_ok parts"
    and "\<forall>(k, v) \<in> set m. token_shaped k \<and> CHR ''['' \<notin> set v"
    and "distinct (map fst m)"
    and "mset m' = mset m"
  shows "detokenize_text (concat parts) m' = detokenize_text (concat parts) m"
proof -
  from assms(4) have s: "set m' = set m" by (rule mset_eq_setD)
  from assms(4) have "mset (map fst m') = mset (map fst m)" by simp
  with assms(3) have d: "distinct (map fst m')" by (metis mset_eq_imp_distinct_iff)
  from assms(3) d s have "map_of m' = map_of m" by (simp add: map_of_inject_set)
  then have l: "lookup_part m' = lookup_part m" by (simp add: lookup_part_def fun_eq_iff)
  from assms(2) s have "\<forall>(k, v) \<in> set m'. token_shaped k \<and> CHR ''['' \<notin> set v" by simp
  with assms(1) have "detokenize_text (concat parts) m' = concat (map (lookup_part m') parts)"
    by (rule detokenize_parts)
  moreover from assms(1,2) have "detokenize_text (concat parts) m = concat (map (lookup_part m) parts)"
    by (rule detokenize_parts)
  ultimately show ?thesis using l by simp
qed

theorem detokenize_order_independent_witness:
  "list_all part_ok plain_parts
   \<and> list_all (\<lambda>(k, v). token_shaped k \<and> CHR ''['' \<notin> set v) plain_mapping
   \<and> distinct (map fst plain_mapping)
   \<and> mset (rev plain_mapping) = mset plain_mapping
   \<and> detokenize_text (concat plain_parts) (rev plain_mapping)
       = detokenize_text (concat plain_parts) plain_mapping"
proof -
  have h1: "list_all part_ok plain_parts" by code_simp
  have h2: "\<forall>(k, v) \<in> set plain_mapping. token_shaped k \<and> CHR ''['' \<notin> set v" by code_simp
  have h3: "distinct (map fst plain_mapping)" by code_simp
  have h2': "list_all (\<lambda>(k, v). token_shaped k \<and> CHR ''['' \<notin> set v) plain_mapping"
    by code_simp
  have h4: "mset (rev plain_mapping) = mset plain_mapping" by simp
  from detokenize_order_independent [OF h1 h2 h3 h4] h1 h2' h3 h4 show ?thesis by blast
qed

text \<open>
  A value that holds the key of another entry: the two orders of the entries give two
  different texts.
\<close>

theorem detokenize_order_counterexample:
  "detokenize_text ''see [PII_URL_1]'' nested_mapping = ''see https://x.io/?u=[PII_EMAIL_1]''
   \<and> detokenize_text ''see [PII_URL_1]'' (rev nested_mapping) = ''see https://x.io/?u=a@b.co''
   \<and> mset (rev nested_mapping) = mset nested_mapping"
proof -
  have "detokenize_text ''see [PII_URL_1]'' nested_mapping = ''see https://x.io/?u=[PII_EMAIL_1]''"
    by code_simp
  moreover have "detokenize_text ''see [PII_URL_1]'' (rev nested_mapping)
                   = ''see https://x.io/?u=a@b.co''"
    by code_simp
  ultimately show ?thesis by simp
qed

lemma token_prefix_within:
  assumes "token_shaped k" and "token_shaped t" and "k \<noteq> t" and "prefix k (pre @ t @ post)"
  shows "prefix k pre"
proof (rule ccontr)
  assume np: "\<not> prefix k pre"
  from assms(4) np obtain k' where k: "k = pre @ k'" and k': "k' \<noteq> []" "prefix k' (t @ post)"
    by (metis prefix_append prefixI append_Nil2 prefix_order.order_refl)
  from assms(2) obtain bt where t: "t = CHR ''['' # bt @ '']''" by (rule token_shapedE)
  from k' t have hk': "hd k' = CHR ''[''" by (cases k') auto
  show False
  proof (cases pre)
    case Nil
    with k k'(2) have "prefix k (t @ post)" by simp
    with assms(1,2) have "k = t" by (rule token_prefix_eq)
    with assms(3) show False by simp
  next
    case (Cons c cs)
    with k k'(1) hk' have "CHR ''['' \<in> set (tl k)" by (cases k') auto
    with assms(1) show False by (simp add: token_shaped_def)
  qed
qed

lemma replace_scan_around_token:
  assumes "token_shaped k" and "token_shaped t" and "k \<noteq> t"
  shows "replace_scan k v (pre @ t @ post) = replace_scan k v pre @ t @ replace_scan k v post"
proof (induction "length pre" arbitrary: pre rule: less_induct)
  case less
  from assms(1) have ne: "k \<noteq> []" by (auto simp: token_shaped_def)
  show ?case
  proof (cases pre)
    case Nil
    with assms show ?thesis by (simp add: replace_scan_other_token)
  next
    case (Cons c cs)
    show ?thesis
    proof (cases "prefix k (pre @ t @ post)")
      case True
      with assms have "prefix k pre" by (rule token_prefix_within)
      then obtain pre' where pre: "pre = k @ pre'" by (auto simp: prefix_def)
      with ne have "length pre' < length pre" by simp
      then have "replace_scan k v (pre' @ t @ post)
                   = replace_scan k v pre' @ t @ replace_scan k v post"
        by (rule less)
      moreover have "replace_scan k v (k @ (pre' @ t @ post)) = v @ replace_scan k v (pre' @ t @ post)"
        using ne by (rule replace_scan_key)
      moreover have "replace_scan k v (k @ pre') = v @ replace_scan k v pre'"
        using ne replace_scan_key [of k v pre'] by simp
      ultimately show ?thesis using pre by simp
    next
      case False
      then have "\<not> prefix k pre" by (auto simp: prefix_def)
      with Cons have a: "replace_scan k v pre = c # replace_scan k v cs" by simp
      from False Cons have b: "replace_scan k v (pre @ t @ post) = c # replace_scan k v (cs @ t @ post)"
        by simp
      from Cons have "length cs < length pre" by simp
      then have "replace_scan k v (cs @ t @ post) = replace_scan k v cs @ t @ replace_scan k v post"
        by (rule less)
      with a b show ?thesis by simp
    qed
  qed
qed

lemma detokenize_around_token:
  assumes "\<forall>k \<in> fst ` set m. token_shaped k" and "token_shaped t" and "t \<notin> fst ` set m"
  shows "detokenize_text (pre @ t @ post) m = detokenize_text pre m @ t @ detokenize_text post m"
  using assms(1,3)
proof (induction m arbitrary: pre post)
  case Nil
  then show ?case by simp
next
  case (Cons kv m)
  obtain k v where kv: "kv = (k, v)" by (cases kv)
  with Cons.prems have k: "token_shaped k" "k \<noteq> t" by auto
  then have ne: "k \<noteq> []" by (auto simp: token_shaped_def)
  from k assms(2) have "replace_scan k v (pre @ t @ post)
                          = replace_scan k v pre @ t @ replace_scan k v post"
    by (intro replace_scan_around_token)
  with ne have "str_replace (pre @ t @ post) k v = str_replace pre k v @ t @ str_replace post k v"
    by (simp add: str_replace_def)
  moreover from Cons.prems have "\<forall>k \<in> fst ` set m. token_shaped k" "t \<notin> fst ` set m" by auto
  ultimately show ?case using Cons.IH kv by simp
qed

text \<open>
  Claim C6. The mapping is one of tokens to values. A token that occurs in the text and
  is not a key of the mapping stays where it is, and nothing fails: \<open>detokenize_text\<close> is
  total, and the text before the token and the text after it are detokenized as they
  would be alone, whatever the text and the values are. The first part states this for
  the tokens \<open>[PII_<CATEGORY>_<N>]\<close> of the grammar, the second for every string \<open>[...]\<close>
  without a further bracket, which covers the tokens that \<open>_generate_token\<close> makes from
  any label without a bracket. The third part is the example of the specification.
\<close>

theorem partial_mapping_untouched:
  "((\<forall>k \<in> fst ` set m. is_token k) \<and> is_token t \<and> t \<notin> fst ` set m
      \<longrightarrow> detokenize_text (pre @ t @ post) m
            = detokenize_text pre m @ t @ detokenize_text post m)
   \<and> ((\<forall>k \<in> fst ` set m. token_shaped k) \<and> token_shaped t \<and> t \<notin> fst ` set m
      \<longrightarrow> detokenize_text (pre @ t @ post) m
            = detokenize_text pre m @ t @ detokenize_text post m)
   \<and> detokenize_text ''[PII_PERSON_1] and [PII_EMAIL_1]'' [(''[PII_PERSON_1]'', ''Ann'')]
       = ''Ann and [PII_EMAIL_1]''"
proof -
  have "detokenize_text ''[PII_PERSON_1] and [PII_EMAIL_1]'' [(''[PII_PERSON_1]'', ''Ann'')]
          = ''Ann and [PII_EMAIL_1]''"
    by code_simp
  moreover have "detokenize_text (pre @ t @ post) m
                   = detokenize_text pre m @ t @ detokenize_text post m"
    if "(\<forall>k \<in> fst ` set m. is_token k) \<and> is_token t \<and> t \<notin> fst ` set m"
    using that by (intro detokenize_around_token) (auto dest: is_token_shaped)
  ultimately show ?thesis by (simp add: detokenize_around_token)
qed

theorem partial_mapping_untouched_witness:
  "list_all is_token (map fst [(''[PII_PERSON_1]'', ''Ann'')])
   \<and> is_token ''[PII_EMAIL_10]''
   \<and> list_all token_shaped (map fst [(''[PII_PERSON_1]'', ''Ann'')])
   \<and> token_shaped ''[PII_EMAIL_10]''
   \<and> ''[PII_EMAIL_10]'' \<notin> fst ` set [(''[PII_PERSON_1]'', ''Ann'')]
   \<and> detokenize_text (''Dear [PII_PERSON_1], write to '' @ ''[PII_EMAIL_10]'' @ '' today'')
        [(''[PII_PERSON_1]'', ''Ann'')]
       = ''Dear Ann, write to '' @ ''[PII_EMAIL_10]'' @ '' today''"
proof -
  let ?m = "[(''[PII_PERSON_1]'', ''Ann'')]"
  have g1: "\<forall>k \<in> fst ` set ?m. is_token k" by code_simp
  have g2: "is_token ''[PII_EMAIL_10]''" by code_simp
  have h1: "\<forall>k \<in> fst ` set ?m. token_shaped k" by code_simp
  have h2: "token_shaped ''[PII_EMAIL_10]''" by code_simp
  have h3: "''[PII_EMAIL_10]'' \<notin> fst ` set ?m" by simp
  have e1: "detokenize_text ''Dear [PII_PERSON_1], write to '' ?m = ''Dear Ann, write to ''"
    by code_simp
  have e2: "detokenize_text '' today'' ?m = '' today''"
    by code_simp
  from partial_mapping_untouched
         [of ?m "''[PII_EMAIL_10]''" "''Dear [PII_PERSON_1], write to ''" "'' today''"]
       g1 g2 h1 h2 h3
  have "detokenize_text (''Dear [PII_PERSON_1], write to '' @ ''[PII_EMAIL_10]'' @ '' today'') ?m
        = detokenize_text ''Dear [PII_PERSON_1], write to '' ?m
          @ ''[PII_EMAIL_10]'' @ detokenize_text '' today'' ?m"
    by blast
  moreover have "list_all is_token (map fst ?m)" "list_all token_shaped (map fst ?m)"
    by code_simp+
  ultimately show ?thesis using g2 h2 h3 e1 e2 by simp
qed

section \<open>The round trip\<close>

subsection \<open>Spans that end behind the text\<close>

lemma clamp_in_bounds: "starts_inside text r \<Longrightarrow> in_bounds text (clamp_end text r)"
  by (auto simp: starts_inside_def in_bounds_def clamp_end_def)

lemma clamp_disjoint:
  "disjoint_spans r q \<Longrightarrow> disjoint_spans (clamp_end text r) (clamp_end text q)"
  by (auto simp: disjoint_spans_def clamp_end_def)

lemma clamp_non_overlapping:
  "non_overlapping rs \<Longrightarrow> non_overlapping (map (clamp_end text) rs)"
  by (induction rs) (auto simp: list_all_iff clamp_disjoint)

lemma insort_clamp:
  "insort_key (\<lambda>x. - r_start x) (clamp_end text r) (map (clamp_end text) rs)
     = map (clamp_end text) (insort_key (\<lambda>x. - r_start x) r rs)"
  by (induction rs) (auto simp: clamp_end_def)

lemma sort_results_clamp:
  "sort_results (map (clamp_end text) rs) = map (clamp_end text) (sort_results rs)"
  by (induction rs) (simp_all add: sort_results_def insort_clamp)

lemma desc_chain_ends: "desc_chain b rs \<Longrightarrow> q \<in> set rs \<Longrightarrow> r_end q \<le> b"
proof (induction rs arbitrary: b)
  case Nil
  then show ?case by simp
next
  case (Cons r rs)
  show ?case
  proof (cases "q = r")
    case True
    with Cons.prems show ?thesis by simp
  next
    case False
    with Cons.prems have "q \<in> set rs" "desc_chain (r_start r) rs" by simp_all
    then have "r_end q \<le> r_start r" by (intro Cons.IH)
    with Cons.prems(1) show ?thesis by simp
  qed
qed

lemma presidio_step_clamp:
  assumes "0 \<le> r_start r" and "r_start r < r_end r"
  shows "presidio_loop text h text (clamp_end text r # rs) = presidio_loop text h text (r # rs)"
proof -
  let ?n = "length text"
  from assms have e: "0 \<le> r_end r" by simp
  then have i: "slice_index (min (r_end r) (int ?n)) ?n = slice_index (r_end r) ?n"
    by (auto simp: slice_index_def min_def)
  have "py_slice text (r_start r) (min (r_end r) (int ?n)) = py_slice text (r_start r) (r_end r)"
    by (simp add: py_slice_def i)
  moreover have "py_suffix text (min (r_end r) (int ?n)) = py_suffix text (r_end r)"
    by (simp add: py_suffix_def i)
  ultimately show ?thesis by (simp add: clamp_end_def)
qed

lemma presidio_loop_clamp:
  assumes "list_all (starts_inside text) ds"
    and "desc_chain (int (length text)) (map (clamp_end text) ds)"
  shows "presidio_loop text h text (map (clamp_end text) ds) = presidio_loop text h text ds"
proof (cases ds)
  case Nil
  then show ?thesis by simp
next
  case (Cons r rs)
  have "clamp_end text q = q" if "q \<in> set rs" for q
  proof -
    from assms(2) Cons have "desc_chain (r_start r) (map (clamp_end text) rs)"
      by (simp add: clamp_end_def)
    moreover from that have "clamp_end text q \<in> set (map (clamp_end text) rs)" by simp
    ultimately have "r_end (clamp_end text q) \<le> r_start r" by (rule desc_chain_ends)
    moreover from assms(1) Cons have "r_start r < int (length text)"
      by (simp add: starts_inside_def)
    ultimately show ?thesis by (simp add: clamp_end_def min_def split: if_splits)
  qed
  then have "map (clamp_end text) rs = rs" by (simp add: map_idI)
  moreover from assms(1) Cons have "0 \<le> r_start r" "r_start r < r_end r"
    by (simp_all add: starts_inside_def)
  ultimately show ?thesis using Cons by (simp add: presidio_step_clamp del: presidio_loop.simps)
qed

lemma tokenize_text_clamp:
  assumes "use_presidio h" and "analyze text ''en'' entities = Inr results"
    and "list_all (starts_inside text) results" and "non_overlapping results"
  shows "tokenize_text analyze fi h text
           = tokenize_text (\<lambda>t l e. Inr (map (clamp_end text) results)) fi h text"
    and "list_all (in_bounds text) (map (clamp_end text) results)"
    and "non_overlapping (map (clamp_end text) results)"
proof -
  let ?cs = "map (clamp_end text) results"
  show b: "list_all (in_bounds text) ?cs"
    using assms(3) by (simp add: list_all_iff clamp_in_bounds)
  show n: "non_overlapping ?cs" using assms(4) by (rule clamp_non_overlapping)
  from b n have "desc_chain (int (length text)) (sort_results ?cs)"
    by (rule desc_chain_sort_results)
  then have c: "desc_chain (int (length text)) (map (clamp_end text) (sort_results results))"
    by (simp add: sort_results_clamp)
  have "list_all (starts_inside text) (sort_results results)"
    using assms(3) by (simp add: list_all_iff sort_results_def)
  from presidio_loop_clamp [OF this c]
  have "presidio_loop text h0 text (sort_results ?cs)
          = presidio_loop text h0 text (sort_results results)" for h0
    by (simp add: sort_results_clamp)
  with assms(1,2) show "tokenize_text analyze fi h text
           = tokenize_text (\<lambda>t l e. Inr ?cs) fi h text"
    by (simp add: tokenize_text_presidio)
qed

subsection \<open>Replacement when no token occurs in the text\<close>

lemma replace_scan_absent: "\<not> sublist k s \<Longrightarrow> replace_scan k v s = s"
proof (induction s)
  case Nil
  then show ?case by simp
next
  case (Cons c cs)
  from Cons.prems have "\<not> prefix k (c # cs)" "\<not> sublist k cs"
    by (auto simp: sublist_Cons_right)
  with Cons.IH show ?case by simp
qed

lemma sublist_py_slice: "sublist (py_slice text i j) text"
proof -
  have "sublist (drop a (take b text)) (take b text)" for a b by (rule sublist_drop)
  moreover have "sublist (take b text) text" for b by (rule sublist_take)
  ultimately have "sublist (drop a (take b text)) text" for a b
    by (rule sublist_order.order_trans)
  then show ?thesis by (simp add: py_slice_def)
qed

lemma no_sublist_slice: "\<not> sublist k text \<Longrightarrow> \<not> sublist k (py_slice text i j)"
  using sublist_py_slice [of "text" i j] by (blast intro: sublist_order.order_trans)

lemma token_prefix_before:
  assumes "token_shaped k" and "token_shaped t" and "pre \<noteq> []"
    and "prefix k (pre @ t @ post)"
  shows "prefix k pre"
proof (rule ccontr)
  assume np: "\<not> prefix k pre"
  from assms(4) np obtain k' where k: "k = pre @ k'" and k': "k' \<noteq> []" "prefix k' (t @ post)"
    by (metis prefix_append prefixI append_Nil2 prefix_order.order_refl)
  from assms(2) obtain bt where t: "t = CHR ''['' # bt @ '']''" by (rule token_shapedE)
  from k' t have hk': "hd k' = CHR ''[''" by (cases k') auto
  from assms(3) obtain c cs where "pre = c # cs" by (cases pre) auto
  with k k'(1) hk' have "CHR ''['' \<in> set (tl k)" by (cases k') auto
  with assms(1) show False by (simp add: token_shaped_def)
qed

lemma replace_scan_at_key:
  assumes "token_shaped k"
  shows "replace_scan k v (pre @ k @ post) = replace_scan k v pre @ v @ replace_scan k v post"
proof (induction "length pre" arbitrary: pre rule: less_induct)
  case less
  from assms have ne: "k \<noteq> []" by (auto simp: token_shaped_def)
  show ?case
  proof (cases pre)
    case Nil
    with ne show ?thesis by (simp add: replace_scan_key)
  next
    case (Cons c cs)
    show ?thesis
    proof (cases "prefix k (pre @ k @ post)")
      case True
      with assms Cons have "prefix k pre" by (intro token_prefix_before [of k k pre post]) auto
      then obtain pre' where pre: "pre = k @ pre'" by (auto simp: prefix_def)
      with ne have "length pre' < length pre" by simp
      then have "replace_scan k v (pre' @ k @ post)
                   = replace_scan k v pre' @ v @ replace_scan k v post"
        by (rule less)
      moreover have "replace_scan k v (k @ (pre' @ k @ post)) = v @ replace_scan k v (pre' @ k @ post)"
        using ne by (rule replace_scan_key)
      moreover have "replace_scan k v (k @ pre') = v @ replace_scan k v pre'"
        using ne replace_scan_key [of k v pre'] by simp
      ultimately show ?thesis using pre by simp
    next
      case False
      then have "\<not> prefix k pre" by (auto simp: prefix_def)
      with Cons have a: "replace_scan k v pre = c # replace_scan k v cs" by simp
      from False Cons have b: "replace_scan k v (pre @ k @ post) = c # replace_scan k v (cs @ k @ post)"
        by simp
      from Cons have "length cs < length pre" by simp
      then have "replace_scan k v (cs @ k @ post) = replace_scan k v cs @ v @ replace_scan k v post"
        by (rule less)
      with a b show ?thesis by simp
    qed
  qed
qed

lemma replace_scan_simul:
  assumes "token_shaped k" and "\<not> sublist k text"
    and "\<forall>(r, tk) \<in> set xs. token_shaped tk"
  shows "replace_scan k v (simul_upto text pos b xs)
           = simul_upto text pos b (map (\<lambda>(r, tk). (r, if tk = k then v else tk)) xs)"
  using assms(3)
proof (induction xs arbitrary: pos)
  case Nil
  have "\<not> sublist k (py_slice text pos b)"
    using assms(2) by (rule no_sublist_slice)
  then show ?case by (simp add: replace_scan_absent)
next
  case (Cons x xs)
  obtain r tk where x: "x = (r, tk)" by (cases x)
  let ?gap = "py_slice text pos (r_start r)"
  let ?rest = "simul_upto text (r_end r) b xs"
  from Cons.prems x have tk: "token_shaped tk" by simp
  have gap: "replace_scan k v ?gap = ?gap"
    using assms(2) by (intro replace_scan_absent no_sublist_slice)
  from Cons have IH: "replace_scan k v ?rest
      = simul_upto text (r_end r) b (map (\<lambda>(r, tk). (r, if tk = k then v else tk)) xs)"
    by simp
  show ?case
  proof (cases "tk = k")
    case True
    have "replace_scan k v (?gap @ k @ ?rest) = replace_scan k v ?gap @ v @ replace_scan k v ?rest"
      using assms(1) by (rule replace_scan_at_key)
    with True gap IH x show ?thesis by simp
  next
    case False
    then have "k \<noteq> tk" by simp
    with assms(1) tk
    have "replace_scan k v (?gap @ tk @ ?rest) = replace_scan k v ?gap @ tk @ replace_scan k v ?rest"
      by (rule replace_scan_around_token)
    with False gap IH x show ?thesis by simp
  qed
qed

lemma py_slice_append:
  assumes "0 \<le> a" and "a \<le> m" and "m \<le> b" and "b \<le> int (length text)"
  shows "py_slice text a m @ py_slice text m b = py_slice text a b"
proof -
  from assms have n: "nat a \<le> nat m" "nat m \<le> nat b" "nat b \<le> length text" by auto
  with assms have i: "slice_index a (length text) = nat a" "slice_index m (length text) = nat m"
    "slice_index b (length text) = nat b"
    by (auto simp: slice_index_def)
  have "take (nat m) text @ drop (nat m) (take (nat b) text) = take (nat b) text"
    using n(2) by (rule take_drop_take)
  then have "drop (nat a) (take (nat m) text @ drop (nat m) (take (nat b) text))
               = drop (nat a) (take (nat b) text)"
    by simp
  moreover have "drop (nat a) (take (nat m) text @ drop (nat m) (take (nat b) text))
               = drop (nat a) (take (nat m) text) @ drop (nat m) (take (nat b) text)"
    using n by simp
  ultimately show ?thesis by (simp add: py_slice_def i)
qed

lemma simul_upto_extend:
  assumes "desc_chain s rs" and "length tks = length rs"
    and "0 \<le> s" and "s \<le> b" and "b \<le> int (length text)"
  shows "simul_upto text 0 s (rev (zip rs tks)) @ py_slice text s b
           = simul_upto text 0 b (rev (zip rs tks))"
proof (cases rs)
  case Nil
  with assms show ?thesis by (simp add: py_slice_append)
next
  case (Cons r rs')
  with assms(2) obtain t tks' where tks: "tks = t # tks'" by (cases tks) auto
  from assms(1) Cons have r: "0 \<le> r_start r" "r_start r < r_end r" "r_end r \<le> s" by simp_all
  with assms have "py_slice text (r_end r) s @ py_slice text s b = py_slice text (r_end r) b"
    by (intro py_slice_append) auto
  with Cons tks show ?thesis by (simp add: simul_upto_snoc)
qed

lemma desc_chain_bound: "desc_chain b rs \<Longrightarrow> b \<le> b' \<Longrightarrow> desc_chain b' rs"
  by (cases rs) auto

lemma detokenize_simul:
  assumes "desc_chain b rs" and "0 \<le> b" and "b \<le> int (length text)"
    and "length tks = length rs" and "distinct tks"
    and "\<forall>tk \<in> set tks. token_shaped tk \<and> \<not> sublist tk text"
  shows "detokenize_text (simul_upto text 0 b (rev (zip rs tks))) (zip tks (map (span_text text) rs))
           = take (nat b) text"
  using assms(1,4,5,6)
proof (induction rs arbitrary: tks)
  case Nil
  with assms(2,3) show ?case by (simp add: py_slice_zero)
next
  case (Cons r rs)
  from Cons.prems(2) obtain t tks' where tks: "tks = t # tks'" by (cases tks) auto
  let ?xs = "rev (zip rs tks')"
  let ?v = "span_text text r"
  from Cons.prems(1) have r: "0 \<le> r_start r" "r_start r < r_end r" "r_end r \<le> b"
    and chain: "desc_chain (r_start r) rs"
    by simp_all
  from Cons.prems tks have t: "token_shaped t" "\<not> sublist t text" "t \<notin> set tks'"
    and len: "length tks' = length rs" and rest: "distinct tks'"
      "\<forall>tk \<in> set tks'. token_shaped tk \<and> \<not> sublist tk text"
    by simp_all
  from t(1) have ne: "t \<noteq> []" by (auto simp: token_shaped_def)
  have shaped: "\<forall>(q, tk) \<in> set (?xs @ [(r, t)]). token_shaped tk"
    using rest(2) t(1) by (auto dest: set_zip_rightD)
  have "map (\<lambda>(q, tk). (q, if tk = t then ?v else tk)) ?xs = ?xs"
    using t(3) by (intro map_idI) (auto dest: set_zip_rightD)
  then have a: "replace_scan t ?v (simul_upto text 0 b (?xs @ [(r, t)]))
               = simul_upto text 0 b (?xs @ [(r, ?v)])"
    using replace_scan_simul [OF t(1) t(2) shaped, of ?v 0 b] by simp
  have c: "simul_upto text 0 b (?xs @ [(r, ?v)])
             = simul_upto text 0 (r_start r) ?xs @ (?v @ py_slice text (r_end r) b)"
    by (simp add: simul_upto_snoc)
  have d: "?v @ py_slice text (r_end r) b = py_slice text (r_start r) b"
    using r assms(3) unfolding span_text_def by (intro py_slice_append) auto
  have e: "simul_upto text 0 (r_start r) ?xs @ py_slice text (r_start r) b
               = simul_upto text 0 b ?xs"
    using chain len r assms(3) by (intro simul_upto_extend) auto
  have "replace_scan t ?v (simul_upto text 0 b (?xs @ [(r, t)])) = simul_upto text 0 b ?xs"
    by (simp only: a c d e)
  then have step: "str_replace (simul_upto text 0 b (?xs @ [(r, t)])) t ?v
                        = simul_upto text 0 b ?xs"
    using ne by (simp add: str_replace_def)
  from r have "r_start r \<le> b" by simp
  with chain have cb: "desc_chain b rs" by (rule desc_chain_bound)
  have IH: "detokenize_text (simul_upto text 0 b ?xs) (zip tks' (map (span_text text) rs))
               = take (nat b) text"
    using cb len rest by (rule Cons.IH)
  have "detokenize_text (simul_upto text 0 b (rev (zip (r # rs) tks)))
          (zip tks (map (span_text text) (r # rs)))
        = detokenize_text (str_replace (simul_upto text 0 b (?xs @ [(r, t)])) t ?v)
            (zip tks' (map (span_text text) rs))"
    unfolding tks by simp
  also have "\<dots> = take (nat b) text" by (simp only: step IH)
  finally show ?case .
qed

subsection \<open>The round trip in the primary path\<close>

text \<open>
  Claim C1, amended. In the primary path, detokenizing the tokenized text with the mapping
  of the same call restores the text when every span is not empty and starts inside the
  text (slicing cuts an end that lies behind the text), no two spans overlap, no category
  label holds a bracket, and none of the tokens allocated in the call occurs in the text.
\<close>

theorem round_trip_without_clash:
  assumes "use_presidio h" and "analyze text ''en'' entities = Inr results"
    and "list_all (starts_inside text) results" and "non_overlapping results"
    and "list_all (\<lambda>r. bracket_free (entity_type r)) results"
    and "\<forall>tk \<in> fst ` set (snd (fst (tokenize_text analyze fi h text))). \<not> sublist tk text"
  shows "detokenize_text (fst (fst (tokenize_text analyze fi h text)))
           (snd (fst (tokenize_text analyze fi h text))) = text"
proof -
  let ?cs = "map (clamp_end text) results"
  let ?an = "\<lambda>t l e. Inr ?cs :: exn + recognizer_result list"
  let ?ds = "sort_results ?cs"
  let ?n = "int (length text)"
  from assms(1-4) have same: "tokenize_text analyze fi h text = tokenize_text ?an fi h text"
    and inb: "list_all (in_bounds text) ?cs" and nov: "non_overlapping ?cs"
    by (rule tokenize_text_clamp)+
  have an: "?an text ''en'' entities = Inr ?cs" by simp
  from assms(1) an inb nov obtain tks where len: "length tks = length ?cs"
    and m: "snd (fst (tokenize_text ?an fi h text)) = zip tks (map (span_text text) ?ds)"
    and shape: "list_all2 (\<lambda>tk r. \<exists>n. tk = mk_token (entity_type r) n) tks ?ds"
    and x: "fst (fst (tokenize_text ?an fi h text)) = simul_upto text 0 ?n (rev (zip ?ds tks))"
    and dist: "distinct tks"
    by (rule tokenize_text_structure)
  have lds: "length tks = length ?ds" using len by (simp add: sort_results_def)
  have cats: "\<forall>r \<in> set ?ds. bracket_free (entity_type r)"
    using assms(5) by (auto simp: list_all_iff sort_results_def clamp_end_def)
  have keys: "fst ` set (snd (fst (tokenize_text analyze fi h text))) = set tks"
    using m lds same by (metis length_map map_fst_zip set_map)
  have tok: "token_shaped tk \<and> \<not> sublist tk text" if "tk \<in> set tks" for tk
  proof -
    from that obtain i where i: "i < length tks" "tk = tks ! i"
      by (auto simp: in_set_conv_nth)
    with shape obtain n where "tk = mk_token (entity_type (?ds ! i)) n"
      by (auto simp: list_all2_conv_all_nth)
    moreover from i lds have "?ds ! i \<in> set ?ds" by simp
    ultimately have "token_shaped tk" using cats by (simp add: mk_token_shaped)
    moreover from that keys assms(6) have "\<not> sublist tk text" by blast
    ultimately show ?thesis by simp
  qed
  have chain: "desc_chain ?n ?ds" using inb nov by (rule desc_chain_sort_results)
  have "detokenize_text (simul_upto text 0 ?n (rev (zip ?ds tks))) (zip tks (map (span_text text) ?ds))
          = take (nat ?n) text"
    using chain _ _ lds dist
  proof (rule detokenize_simul)
    show "\<forall>tk \<in> set tks. token_shaped tk \<and> \<not> sublist tk text" using tok by blast
  qed simp_all
  with m x same show ?thesis by simp
qed

theorem round_trip_without_clash_witness:
  "use_presidio example_handler
   \<and> test_analyze test_text ''en'' entities = Inr test_results
   \<and> list_all (starts_inside test_text) test_results
   \<and> non_overlapping test_results
   \<and> list_all (\<lambda>r. bracket_free (entity_type r)) test_results
   \<and> list_all (\<lambda>tk. \<not> sublist tk test_text)
         (map fst (snd (fst (tokenize_text test_analyze no_matches example_handler test_text))))
   \<and> detokenize_text
         (fst (fst (tokenize_text test_analyze no_matches example_handler test_text)))
         (snd (fst (tokenize_text test_analyze no_matches example_handler test_text)))
       = test_text"
proof -
  have h1: "use_presidio example_handler" by (simp add: example_handler_def)
  have h2: "test_analyze test_text ''en'' entities = Inr test_results"
    by (simp add: test_analyze_def)
  have h3: "list_all (starts_inside test_text) test_results"
    by (simp add: starts_inside_def test_text_def test_results_def)
  have h4: "non_overlapping test_results"
    by (simp add: disjoint_spans_def test_results_def)
  have h5: "list_all (\<lambda>r. bracket_free (entity_type r)) test_results"
    by (simp add: bracket_free_def test_results_def)
  have h6': "list_all (\<lambda>tk. \<not> sublist tk test_text)
         (map fst (snd (fst (tokenize_text test_analyze no_matches example_handler test_text))))"
    by code_simp
  then have h6: "\<forall>tk \<in> fst ` set (snd (fst (tokenize_text test_analyze no_matches
        example_handler test_text))). \<not> sublist tk test_text"
    by (simp add: list_all_iff)
  from round_trip_without_clash
         [of example_handler test_analyze test_text test_results no_matches,
          OF h1 h2 h3 h4 h5 h6]
  show ?thesis using h1 h2 h3 h4 h5 h6' by blast
qed

text \<open>
  A text that holds the very token the call allocates: the span \<open>John Doe\<close> is reported at
  its place, and the result of the round trip is \<open>John Doe is John Doe\<close>.
\<close>

theorem round_trip_counterexample:
  "detokenize_text
      (fst (fst (tokenize_text clash_analyze no_matches example_handler clash_text)))
      (snd (fst (tokenize_text clash_analyze no_matches example_handler clash_text)))
    = ''John Doe is John Doe''
   \<and> ''John Doe is John Doe'' \<noteq> clash_text"
  by code_simp

text \<open>
  The fallback path on a text without a bracket. \<open>nested_finditer\<close> gives the matches of
  \<open>re.finditer\<close> for the seven patterns on the two texts that the loop searches: the
  address at \<open>[19, 25)\<close> for the first pattern, and for the sixth the whole run from
  \<open>http\<close> on, which by then ends in the token of the address. The value of the second
  token holds the first token, the mapping lists the first token first, and the round
  trip gives back the text with that token left in.
\<close>

theorem fallback_round_trip_fails:
  "fst (tokenize_text failing_analyze nested_finditer example_handler nested_text)
     = (''see [PII_URL_1]'',
        [(''[PII_EMAIL_1]'', ''a@b.co''), (''[PII_URL_1]'', ''http://x.io/?u=[PII_EMAIL_1]'')])
   \<and> detokenize_text
         (fst (fst (tokenize_text failing_analyze nested_finditer example_handler nested_text)))
         (snd (fst (tokenize_text failing_analyze nested_finditer example_handler nested_text)))
       = ''see http://x.io/?u=[PII_EMAIL_1]''
   \<and> nested_text = ''see http://x.io/?u=a@b.co''"
  by code_simp

section \<open>The structured response\<close>

text \<open>
  Claim C7. \<open>_detokenize_response\<close> serializes the response, substitutes the tokens and
  parses the text again. When the parse succeeds it returns the parsed structure, and
  when the parse fails with \<open>JSONDecodeError\<close> it returns the response it was given, with
  its tokens. When the parse fails with another exception nothing catches it: the
  function raises, where the claim has it return the response.
\<close>

theorem detokenize_response_cases:
  "(loads (detokenize_text (dumps response) m) = Inr parsed
      \<longrightarrow> detokenize_response dumps loads response m = Inr parsed)
   \<and> (loads (detokenize_text (dumps response) m) = Inl JSONDecodeError
      \<longrightarrow> detokenize_response dumps loads response m = Inr response)
   \<and> (loads (detokenize_text (dumps response) m) = Inl e \<and> e \<noteq> JSONDecodeError
      \<longrightarrow> detokenize_response dumps loads response m = Inl e)"
  by (cases e) (simp_all add: detokenize_response_def)

theorem detokenize_response_cases_witness:
  "example_loads (detokenize_text (example_dumps example_response) [(''[PII_PERSON_1]'', ''Ann'')])
       = Inr (JObject [(''name'', JString ''Ann'')])
   \<and> detokenize_response example_dumps example_loads example_response
         [(''[PII_PERSON_1]'', ''Ann'')]
       = Inr (JObject [(''name'', JString ''Ann'')])
   \<and> example_loads (detokenize_text (example_dumps example_response) quote_mapping)
       = Inl JSONDecodeError
   \<and> detokenize_response example_dumps example_loads example_response quote_mapping
       = Inr example_response
   \<and> example_loads (detokenize_text (example_dumps example_response) deep_mapping)
       = Inl RecursionError
   \<and> RecursionError \<noteq> JSONDecodeError
   \<and> detokenize_response example_dumps example_loads example_response deep_mapping
       = Inl RecursionError"
proof -
  have h1: "example_loads (detokenize_text (example_dumps example_response)
              [(''[PII_PERSON_1]'', ''Ann'')]) = Inr (JObject [(''name'', JString ''Ann'')])"
    by code_simp
  have h2: "example_loads (detokenize_text (example_dumps example_response) quote_mapping)
              = Inl JSONDecodeError"
    by code_simp
  have h3: "example_loads (detokenize_text (example_dumps example_response) deep_mapping)
              = Inl RecursionError"
    by code_simp
  show ?thesis
    using detokenize_response_cases
            [of example_loads example_dumps example_response "[(''[PII_PERSON_1]'', ''Ann'')]"
                "JObject [(''name'', JString ''Ann'')]" JSONDecodeError]
          detokenize_response_cases
            [of example_loads example_dumps example_response quote_mapping JNull JSONDecodeError]
          detokenize_response_cases
            [of example_loads example_dumps example_response deep_mapping JNull RecursionError]
          h1 h2 h3
    by simp
qed

section \<open>The empty text\<close>

lemma regex_patterns_loop_empty:
  "\<forall>p \<in> set ps. fi (fst p) [] = [] \<Longrightarrow> regex_patterns_loop fi h [] ps = ([], h)"
  by (induction ps) auto

lemma in_bounds_empty: "list_all (in_bounds []) results \<Longrightarrow> results = []"
  by (cases results) (auto simp: in_bounds_def)

text \<open>
  Claim C8, amended. Tokenizing the empty string calls the active detector as for any
  other text. It returns the empty string and an empty mapping whenever that detector
  reports no span: the analyzer returns only spans that lie inside the text (there is
  none in the empty text), or the regex path runs and no pattern matches in the empty
  string.
\<close>

theorem tokenize_empty_text:
  "(use_presidio h \<and> analyze [] ''en'' entities = Inr results \<and> list_all (in_bounds []) results
      \<longrightarrow> fst (tokenize_text analyze fi h []) = ([], []))
   \<and> ((\<not> use_presidio h \<or> analyze [] ''en'' entities = Inl e)
        \<and> (\<forall>p \<in> set patterns. fi (fst p) [] = [])
      \<longrightarrow> fst (tokenize_text analyze fi h []) = ([], []))"
proof (intro conjI impI)
  assume a: "use_presidio h \<and> analyze [] ''en'' entities = Inr results
             \<and> list_all (in_bounds []) results"
  then have "results = []" by (simp add: in_bounds_empty)
  with a show "fst (tokenize_text analyze fi h []) = ([], [])"
    by (simp add: tokenize_text_presidio sort_results_def)
next
  assume a: "(\<not> use_presidio h \<or> analyze [] ''en'' entities = Inl e)
             \<and> (\<forall>p \<in> set patterns. fi (fst p) [] = [])"
  then have r: "tokenize_with_regex fi h0 [] = ([], h0)" for h0
    by (simp add: tokenize_with_regex_def regex_patterns_loop_empty)
  show "fst (tokenize_text analyze fi h []) = ([], [])"
  proof (cases "use_presidio h")
    case True
    with a have "analyze [] ''en'' entities = Inl e" by simp
    with True show ?thesis
      by (simp add: tokenize_text_def tokenize_with_presidio_def r)
  next
    case False
    then show ?thesis by (simp add: tokenize_text_def r)
  qed
qed

theorem tokenize_empty_text_witness:
  "use_presidio example_handler \<and> quiet_analyze [] ''en'' entities = Inr []
   \<and> list_all (in_bounds []) []
   \<and> fst (tokenize_text quiet_analyze no_matches example_handler []) = ([], [])
   \<and> failing_analyze [] ''en'' entities = Inl Exception
   \<and> list_all (\<lambda>p. no_matches (fst p) [] = []) patterns
   \<and> fst (tokenize_text failing_analyze no_matches example_handler []) = ([], [])"
proof -
  have h1: "use_presidio example_handler" by (simp add: example_handler_def)
  have h2: "quiet_analyze [] ''en'' entities = Inr []" by (simp add: quiet_analyze_def)
  have h3: "failing_analyze [] ''en'' entities = Inl Exception"
    by (simp add: failing_analyze_def)
  have h4: "\<forall>p \<in> set patterns. no_matches (fst p) [] = []" by (simp add: no_matches_def)
  show ?thesis
    using tokenize_empty_text [of example_handler quiet_analyze "[]" no_matches Exception]
      tokenize_empty_text [of example_handler failing_analyze "[]" no_matches Exception]
      h1 h2 h3 h4
    by (simp add: list_all_iff)
qed

text \<open>
  An analyzer that answers the empty text with the span \<open>[0, 0)\<close>, and one that answers
  with no span: the result follows the answer.
\<close>

theorem tokenize_empty_text_counterexample:
  "fst (tokenize_text eager_analyze no_matches example_handler [])
     = (''[PII_PERSON_1]'', [(''[PII_PERSON_1]'', [])])
   \<and> fst (tokenize_text quiet_analyze no_matches example_handler []) = ([], [])"
  by code_simp

section \<open>The returned mapping\<close>

lemma init_valid: "valid_obj (snd (init presidio_ok hp)) (fst (init presidio_ok hp))"
  by (simp add: init_def valid_obj_def)

lemma tokenize_text_obj_frame:
  assumes "tokenize_text_obj analyze fi obj hp text = ((x, a), hp')"
  shows "a = length (str_dicts hp)"
    and "length (str_dicts hp') = Suc (length (str_dicts hp))"
    and "length (int_dicts hp') = length (int_dicts hp)"
    and "str_dicts hp' ! a = snd (fst (tokenize_text analyze fi (load_handler hp obj) text))"
    and "\<And>b. b < length (str_dicts hp) \<Longrightarrow> b \<noteq> mapping_ref obj
           \<Longrightarrow> str_dicts hp' ! b = str_dicts hp ! b"
  using assms
  by (auto simp: tokenize_text_obj_def Let_def nth_append split: prod.splits)

lemma later_calls_frame:
  assumes "valid_obj hp obj" and "b < length (str_dicts hp)" and "b \<noteq> mapping_ref obj"
  shows "str_dicts (later_calls analyze fi obj hp texts) ! b = str_dicts hp ! b"
  using assms
proof (induction texts arbitrary: hp)
  case Nil
  then show ?case by simp
next
  case (Cons t ts)
  obtain x a hp' where c: "tokenize_text_obj analyze fi obj hp t = ((x, a), hp')"
    by (cases "tokenize_text_obj analyze fi obj hp t") auto
  from tokenize_text_obj_frame [OF c] Cons.prems
  have "valid_obj hp' obj" "b < length (str_dicts hp')" "str_dicts hp' ! b = str_dicts hp ! b"
    by (simp_all add: valid_obj_def)
  with Cons.IH [of hp'] Cons.prems(3) c show ?case by simp
qed

text \<open>
  Claim C10. \<open>tokenize_text\<close> returns a new dict object, a copy of the handler's mapping.
  Later calls on the same instance clear and refill the handler's own dict, and leave the
  returned object as it was. \<open>valid_obj\<close> says that the two dicts of the instance exist in
  the store, as they do from \<open>init\<close> on.
\<close>

theorem returned_mapping_detached:
  assumes "valid_obj hp obj"
    and "tokenize_text_obj analyze fi obj hp text = ((tokenized, a), hp1)"
  shows "a \<noteq> mapping_ref obj
     \<and> str_dicts hp1 ! a = snd (fst (tokenize_text analyze fi (load_handler hp obj) text))
     \<and> str_dicts (later_calls analyze' fi' obj hp1 texts) ! a = str_dicts hp1 ! a"
proof -
  from tokenize_text_obj_frame [OF assms(2)] assms(1)
  have a: "a = length (str_dicts hp)" "a \<noteq> mapping_ref obj" "a < length (str_dicts hp1)"
    and v: "valid_obj hp1 obj"
    and r: "str_dicts hp1 ! a = snd (fst (tokenize_text analyze fi (load_handler hp obj) text))"
    by (simp_all add: valid_obj_def)
  from v a(3,2) have "str_dicts (later_calls analyze' fi' obj hp1 texts) ! a = str_dicts hp1 ! a"
    by (rule later_calls_frame)
  with a r show ?thesis by simp
qed

theorem returned_mapping_detached_witness:
  "valid_obj example_heap example_obj
   \<and> str_dicts (later_calls quiet_analyze no_matches example_obj (snd first_call)
         [''No names here'']) ! snd (fst first_call)
       = str_dicts (snd first_call) ! snd (fst first_call)
   \<and> str_dicts (snd first_call) ! snd (fst first_call)
       = [(''[PII_EMAIL_ADDRESS_1]'', ''bob@company.com''),
          (''[PII_EMAIL_ADDRESS_2]'', ''alice@company.com'')]
   \<and> str_dicts (later_calls quiet_analyze no_matches example_obj (snd first_call)
         [''No names here'']) ! mapping_ref example_obj = []"
proof -
  have h1: "valid_obj example_heap example_obj" by code_simp
  have h2: "tokenize_text_obj example_analyze no_matches example_obj example_heap example_text
              = ((fst (fst first_call), snd (fst first_call)), snd first_call)"
    by (simp add: first_call_def)
  have v: "str_dicts (snd first_call) ! snd (fst first_call)
       = [(''[PII_EMAIL_ADDRESS_1]'', ''bob@company.com''),
          (''[PII_EMAIL_ADDRESS_2]'', ''alice@company.com'')]"
    by code_simp
  have c: "str_dicts (later_calls quiet_analyze no_matches example_obj (snd first_call)
         [''No names here'']) ! mapping_ref example_obj = []"
    by code_simp
  from returned_mapping_detached [OF h1 h2, of quiet_analyze no_matches "[''No names here'']"]
  show ?thesis using h1 v c by simp
qed

end
